theory Spec2Isabelle
  imports Complex_Main "HOL-Library.AList" "HOL-Library.Multiset"
begin

section \<open>IEEE binary64 values, as far as the bad-alignment filter uses them\<close>

text \<open>
  \<open>BadAlign::filterRead\<close> computes \<open>round(bad_align_frac_ * mapping.queryLength())\<close> in
  C++ \<open>double\<close> arithmetic and compares an unsigned integer with the result. A finite
  binary64 value is written \<open>Fin m e\<close> and stands for \<open>m * 2 ^ e\<close>; every finite binary64
  value has such a form with \<open>\<bar>m\<bar> < 2 ^ 53\<close> and \<open>- 1074 \<le> e\<close>. The sign of zero is not
  kept: no operation used here distinguishes the two zeros.
\<close>

datatype double = Fin int int | PInf | NInf | NaN

definition pow2 :: "int \<Rightarrow> rat" where
  "pow2 e = (if 0 \<le> e then 2 ^ nat e else 1 / 2 ^ nat (- e))"

fun dval :: "double \<Rightarrow> rat" where
  "dval (Fin m e) = of_int m * pow2 e"
| "dval PInf = 0"
| "dval NInf = 0"
| "dval NaN = 0"

fun is_finite :: "double \<Rightarrow> bool" where
  "is_finite (Fin m e) = True"
| "is_finite PInf = False"
| "is_finite NInf = False"
| "is_finite NaN = False"

text \<open>Number of binary digits of a natural number.\<close>

fun bitlen_nat :: "nat \<Rightarrow> nat" where
  "bitlen_nat n = (if n = 0 then 0 else Suc (bitlen_nat (n div 2)))"

declare bitlen_nat.simps [simp del]

text \<open>\<open>round_even n s\<close>: \<open>n / 2 ^ s\<close> rounded to the nearest integer, ties to even.\<close>

definition round_even :: "nat \<Rightarrow> nat \<Rightarrow> nat" where
  "round_even n s =
     (let q = n div 2 ^ s; r = n mod 2 ^ s
      in if s = 0 then n
         else if 2 ^ (s - 1) < r \<or> (r = 2 ^ (s - 1) \<and> odd q) then q + 1 else q)"

text \<open>
  \<open>round64 m e\<close>: the binary64 value nearest to \<open>m * 2 ^ e\<close> (round to nearest, ties to
  even, the default rounding mode). The significand keeps 53 binary digits, fewer in
  the subnormal range where the exponent stops at \<open>- 1074\<close>; a result of magnitude
  \<open>2 ^ 1024\<close> or more is an infinity.
\<close>

definition round64 :: "int \<Rightarrow> int \<Rightarrow> double" where
  "round64 m e =
     (let n = nat \<bar>m\<bar>;
          s = nat (max (int (bitlen_nat n) - 53) (- 1074 - e));
          q = round_even n s;
          e' = e + int s
      in if 1024 < int (bitlen_nat q) + e' then (if m < 0 then NInf else PInf)
         else Fin (sgn m * int q) e')"

text \<open>Conversion of an unsigned integer to \<open>double\<close>.\<close>

definition double_of_nat :: "nat \<Rightarrow> double" where
  "double_of_nat n = round64 (int n) 0"

text \<open>The product of two doubles.\<close>

fun dmul :: "double \<Rightarrow> double \<Rightarrow> double" where
  "dmul NaN y = NaN"
| "dmul x NaN = NaN"
| "dmul (Fin m e) (Fin m' e') = round64 (m * m') (e + e')"
| "dmul (Fin m e) PInf = (if m = 0 then NaN else if m < 0 then NInf else PInf)"
| "dmul (Fin m e) NInf = (if m = 0 then NaN else if m < 0 then PInf else NInf)"
| "dmul PInf (Fin m e) = (if m = 0 then NaN else if m < 0 then NInf else PInf)"
| "dmul NInf (Fin m e) = (if m = 0 then NaN else if m < 0 then PInf else NInf)"
| "dmul PInf PInf = PInf"
| "dmul PInf NInf = NInf"
| "dmul NInf PInf = NInf"
| "dmul NInf NInf = PInf"

text \<open>
  The C library's \<open>round\<close>: the nearest integer, halfway cases away from zero. The
  result is an integer of at most 53 binary digits, or the argument itself when that
  is an integer already, so no second rounding takes place.
\<close>

fun c_round :: "double \<Rightarrow> double" where
  "c_round (Fin m e) =
     (if 0 \<le> e then Fin m e
      else Fin (sgn m * ((\<bar>m\<bar> + 2 ^ (nat (- e) - 1)) div 2 ^ nat (- e))) 0)"
| "c_round PInf = PInf"
| "c_round NInf = NInf"
| "c_round NaN = NaN"

text \<open>The comparison \<open><\<close> on doubles; every comparison with a NaN is false.\<close>

fun dless :: "double \<Rightarrow> double \<Rightarrow> bool" where
  "dless NaN y = False"
| "dless x NaN = False"
| "dless (Fin m e) (Fin m' e') =
     (m * 2 ^ nat (e - min e e') < m' * 2 ^ nat (e' - min e e'))"
| "dless (Fin m e) PInf = True"
| "dless (Fin m e) NInf = False"
| "dless PInf y = False"
| "dless NInf (Fin m e) = True"
| "dless NInf PInf = True"
| "dless NInf NInf = False"

text \<open>Rounding of a rational number to the nearest integer, halfway cases away from zero.\<close>

definition round_half_away :: "rat \<Rightarrow> int" where
  "round_half_away x = (if x < 0 then - \<lfloor>- x + 1 / 2\<rfloor> else \<lfloor>x + 1 / 2\<rfloor>)"


section \<open>Reads and graph alignments\<close>

text \<open>
  \<open>common::Read\<close> (common/Read.hh) with the fields that the aligner and the filters
  read or write.
\<close>

record Read =
  fragment_id :: string
  bases :: string
  quals :: string
  graph_pos :: int
  graph_cigar :: string
  is_graph_mapped :: bool

text \<open>
  A decoded graph alignment (graphtools, outside the sources shown): its linear
  alignments, one for each node of the path, each with its count of clipped query
  bases, and the length of the query.
\<close>

record Alignment =
  numClipped :: nat

record GraphAlignment =
  alignments :: "Alignment list"
  queryLength :: nat


section \<open>The bad-alignment filter (BadAlign.hh)\<close>

datatype exn = AssertionFailed | Error string | Thrown

text \<open>
  The graph pointer is an option, \<open>None\<close> for the null pointer. The constructor
  stores both arguments and asserts that the pointer is not null; the model takes the
  assertion as compiled in. A name cannot end in an underscore here, so the members
  \<open>graph_\<close> and \<open>bad_align_frac_\<close> are the fields \<open>graph\<close> and \<open>bad_align_frac\<close>,
  and likewise for the members of the other classes below.
\<close>

record 'g BadAlign =
  graph :: "'g option"
  bad_align_frac :: double

definition BadAlign_new :: "'g option \<Rightarrow> double \<Rightarrow> exn + 'g BadAlign" where
  "BadAlign_new g fraction =
     (if g = None then Inl AssertionFailed
      else Inr \<lparr>graph = g, bad_align_frac = fraction\<rparr>)"

text \<open>
  \<open>query_clipped\<close> is a \<open>size_t\<close>: the sum and the difference are taken modulo
  \<open>2 ^ 64\<close>. \<open>decodeGraphAlignment\<close> belongs to graphtools and is a parameter.
\<close>

definition size_t_range :: nat where
  "size_t_range = 2 ^ 64"

definition sum_clipped :: "Alignment list \<Rightarrow> nat" where
  "sum_clipped alns = foldl (\<lambda>query_clipped aln. (query_clipped + numClipped aln) mod size_t_range) 0 alns"

definition filterRead ::
  "(int \<Rightarrow> string \<Rightarrow> 'g option \<Rightarrow> GraphAlignment) \<Rightarrow> 'g BadAlign \<Rightarrow> Read \<Rightarrow> bool \<times> string" where
  "filterRead decodeGraphAlignment f r =
     (let mapping = decodeGraphAlignment (graph_pos r) (graph_cigar r) (graph f);
          query_clipped = sum_clipped (alignments mapping);
          query_aligned = (queryLength mapping + size_t_range - query_clipped) mod size_t_range;
          is_bad = dless (double_of_nat query_aligned)
                     (c_round (dmul (bad_align_frac f) (double_of_nat (queryLength mapping))))
      in (is_bad, if is_bad then ''bad_align'' else ''''))"



text \<open>
  The C++ literal \<open>0.8\<close>: the binary64 value nearest to 8/10, and a read of five bases
  for the boundary case of the threshold.
\<close>

definition double_0_8 :: double where
  "double_0_8 = Fin 7205759403792794 (- 53)"

definition example_read :: Read where
  "example_read = \<lparr>fragment_id = ''read1'', bases = ''ACGTA'', quals = ''#####'',
     graph_pos = 0, graph_cigar = ''0[5M]'', is_graph_mapped = True\<rparr>"

definition example_mapping :: "nat \<Rightarrow> GraphAlignment" where
  "example_mapping k = \<lparr>alignments = [\<lparr>numClipped = k\<rparr>], queryLength = 5\<rparr>"

definition example_filter :: "unit BadAlign" where
  "example_filter = \<lparr>graph = Some (), bad_align_frac = double_0_8\<rparr>"


section \<open>The aligner's selection between the two orientations (KlibAligner)\<close>

text \<open>
  Modelled from the spec: \<open>KlibAligner::alignRead\<close>. The sources hold the declaration
  of the class (KlibAligner.hh) with the comment "We will align both the forward and
  the reverse strand and return the alignment which is unique, or with the better
  score, or default to the forward strand"; the body (KlibAligner.cpp) is not among
  them. The local alignment of a sequence against one path is a parameter
  \<open>klib\<close>, with \<open>None\<close> when no alignment clears the threshold of the local aligner.
\<close>

record candidate =
  score :: int
  pos :: int
  cigar :: string

text \<open>
  Modelled from the spec: for each orientation the best-scoring path gives the candidate,
  a tie going to the path met first in the order supplied.
\<close>

definition better :: "candidate option \<Rightarrow> candidate option \<Rightarrow> candidate option" where
  "better best c =
     (case c of
        None \<Rightarrow> best
      | Some a \<Rightarrow> (case best of
                    None \<Rightarrow> Some a
                  | Some b \<Rightarrow> if score b < score a then Some a else Some b))"

definition align_orientation ::
  "('path \<Rightarrow> string \<Rightarrow> candidate option) \<Rightarrow> 'path list \<Rightarrow> string \<Rightarrow> candidate option" where
  "align_orientation klib ps sq = foldl better None (map (\<lambda>p. klib p sq) ps)"

fun complement :: "char \<Rightarrow> char" where
  "complement c =
     (if c = CHR ''A'' then CHR ''T'' else if c = CHR ''T'' then CHR ''A''
      else if c = CHR ''C'' then CHR ''G'' else if c = CHR ''G'' then CHR ''C''
      else c)"

definition reverse_complement :: "string \<Rightarrow> string" where
  "reverse_complement sq = rev (map complement sq)"

text \<open>
  The aligner: the path list bound by \<open>setGraph\<close> and the two counters, which are
  \<open>unsigned\<close> in KlibAligner.hh and so count modulo \<open>2 ^ 32\<close>.
\<close>

record 'path KlibAligner =
  paths :: "'path list"
  attempted :: nat
  mapped :: nat

definition select_orientation :: "candidate option \<Rightarrow> candidate option \<Rightarrow> candidate option" where
  "select_orientation fwd rv =
     (case fwd of
        None \<Rightarrow> rv
      | Some f \<Rightarrow> (case rv of
                    None \<Rightarrow> Some f
                  | Some v \<Rightarrow> if score f < score v then Some v else Some f))"

definition alignRead ::
  "('path \<Rightarrow> string \<Rightarrow> candidate option) \<Rightarrow> 'path KlibAligner \<Rightarrow> Read
     \<Rightarrow> 'path KlibAligner \<times> Read" where
  "alignRead klib a r =
     (let fwd = align_orientation klib (paths a) (bases r);
          rv = align_orientation klib (paths a) (reverse_complement (bases r));
          a' = a\<lparr>attempted := (attempted a + 1) mod 2 ^ 32\<rparr>
      in case select_orientation fwd rv of
           None \<Rightarrow> (a', r\<lparr>is_graph_mapped := False\<rparr>)
         | Some c \<Rightarrow>
             (a'\<lparr>mapped := (mapped a + 1) mod 2 ^ 32\<rparr>,
              r\<lparr>graph_pos := pos c, graph_cigar := cigar c, is_graph_mapped := True\<rparr>))"

text \<open>A read and two paths on which both orientations map with the same score.\<close>

definition example_klib :: "nat \<Rightarrow> string \<Rightarrow> candidate option" where
  "example_klib p sq =
     (if p = 0 \<and> sq = ''ACGTA'' then Some \<lparr>score = 5, pos = 10, cigar = ''0[5M]''\<rparr>
      else if p = 1 \<and> sq = ''TACGT'' then Some \<lparr>score = 5, pos = 20, cigar = ''1[5M]''\<rparr>
      else if p = 1 \<and> sq = ''ACGTA'' then Some \<lparr>score = 3, pos = 30, cigar = ''1[2S3M]''\<rparr>
      else None)"

definition example_aligner :: "nat KlibAligner" where
  "example_aligner = \<lparr>paths = [0, 1], attempted = 0, mapped = 0\<rparr>"


section \<open>The workflow (Workflow.cpp)\<close>

subsection \<open>JSON values\<close>

text \<open>
  \<open>Json::Value\<close> as far as \<open>processGraph\<close> uses it. An object is an association list;
  assigning to \<open>value[key]\<close> replaces the member when the key is there and adds it
  otherwise, and turns a null value into an object. On a value of any other kind the
  library raises an error.
\<close>

datatype json = JNull | JString string | JArray "json list" | JObject "(string \<times> json) list"

definition json_assign :: "string \<Rightarrow> json \<Rightarrow> json \<Rightarrow> exn + json" where
  "json_assign key v j =
     (case j of
        JNull \<Rightarrow> Inr (JObject [(key, v)])
      | JObject ms \<Rightarrow> Inr (JObject (AList.update key v ms))
      | JString s \<Rightarrow> Inl Thrown
      | JArray xs \<Rightarrow> Inl Thrown)"

text \<open>\<open>value[key].append(v)\<close> on an object whose member \<open>key\<close> is an array.\<close>

definition json_append :: "string \<Rightarrow> json \<Rightarrow> json \<Rightarrow> exn + json" where
  "json_append key v j =
     (case j of
        JObject ms \<Rightarrow>
          (case map_of ms key of
             Some (JArray xs) \<Rightarrow> Inr (JObject (AList.update key (JArray (xs @ [v])) ms))
           | Some JNull \<Rightarrow> Inr (JObject (AList.update key (JArray [v]) ms))
           | Some (JString s) \<Rightarrow> Inl Thrown
           | Some (JObject ns) \<Rightarrow> Inl Thrown
           | None \<Rightarrow> Inr (JObject (AList.update key (JArray [v]) ms)))
      | JNull \<Rightarrow> Inr (JObject [(key, JArray [v])])
      | JString s \<Rightarrow> Inl Thrown
      | JArray xs \<Rightarrow> Inl Thrown)"

subsection \<open>Collaborators\<close>

text \<open>
  What the workflow calls and the sources do not hold is a parameter, collected in one
  record: the constructor of \<open>common::BamReader\<close>, \<open>Parameters::load\<close>,
  \<open>common::extractReads\<close>, \<open>alignAndDisambiguate\<close>, \<open>common::writeJson\<close>, the path
  operations and the file sinks of Boost, \<open>std::strerror(errno)\<close> and the gzip filter. A
  collaborator that can raise an exception returns an option, \<open>None\<close> for the exception.
  \<open>rethrows\<close> says what the macro \<open>ASYNC_BLOCK_WITH_CLEANUP\<close> (common/Threads.hh, not
  among the sources) does with an exception that leaves its block, after it has called
  the cleanup function with \<open>failure = true\<close>: let it travel on, or stop it there.
\<close>

record BamReader =
  bamPath :: string
  bamIndexPath :: string
  readerReference :: string

record 'p externals =
  openReader :: "string \<Rightarrow> string \<Rightarrow> string \<Rightarrow> bool"
  loadParameters :: "'p \<Rightarrow> string \<Rightarrow> string \<Rightarrow> string \<Rightarrow> 'p option"
  extractReads :: "BamReader \<Rightarrow> 'p \<Rightarrow> Read list \<Rightarrow> Read list option"
  alignAndDisambiguate :: "'p \<Rightarrow> Read list \<Rightarrow> json option"
  writeJson :: "json \<Rightarrow> string"
  pathFilename :: "string \<Rightarrow> string"
  pathAppend :: "string \<Rightarrow> string \<Rightarrow> string"
  fileOpens :: "string \<Rightarrow> bool"
  sinkAccepts :: "string \<Rightarrow> string \<Rightarrow> bool"
  sysError :: "string \<Rightarrow> string"
  gzip :: "string \<Rightarrow> string"
  rethrows :: bool

subsection \<open>Output streams and \<open>dumpOutput\<close>\<close>

text \<open>
  An output stream: what has been written, and whether the stream is in an error
  state. Writing to a stream in an error state does nothing; a write that the sink
  does not accept puts the stream into the error state.
\<close>

record ostream =
  sinkName :: string
  buffer :: string
  failed :: bool

definition os_write :: "'p externals \<Rightarrow> ostream \<Rightarrow> string \<Rightarrow> ostream" where
  "os_write X os txt =
     (if failed os then os
      else if sinkAccepts X (sinkName os) txt then os\<lparr>buffer := buffer os @ txt\<rparr>
      else os\<lparr>failed := True\<rparr>)"

text \<open>
  \<open>error(...)\<close> (common/Error.hh, not among the sources) raises an exception that carries
  the formatted message.
\<close>

definition quoted :: "string \<Rightarrow> string" where
  "quoted s = [CHR 0x27] @ s @ [CHR 0x27]"

definition write_error_message :: "string \<Rightarrow> string \<Rightarrow> string" where
  "write_error_message file err =
     ''ERROR: Failed to write output to '' @ quoted file @ '' error: '' @ quoted err"

definition open_error_message :: "string \<Rightarrow> string \<Rightarrow> string" where
  "open_error_message file err =
     ''ERROR: Failed to open output file '' @ quoted file @ ''. Error: '' @ quoted err"

definition dumpOutput :: "'p externals \<Rightarrow> string \<Rightarrow> ostream \<Rightarrow> string \<Rightarrow> ostream \<times> exn option" where
  "dumpOutput X output os file =
     (let os' = os_write X os output
      in if failed os' then (os', Some (Error (write_error_message file (sysError X file))))
         else (os', None))"

subsection \<open>The workflow object\<close>

record Input =
  inputPaths :: "string list"
  inputIndexPaths :: "string list"
  unprocessedGraphs :: nat

text \<open>
  \<open>unprocessedGraphs\<close> is the iterator into \<open>graphSpecPaths\<close>, kept as an index. The
  mutex holds the number of the thread that owns it. \<open>firstPrinted\<close> and \<open>terminate\<close>
  are declared in Workflow.hh, not among the sources; they start as \<open>false\<close>.
\<close>

record 'p Workflow =
  graphSpecPaths :: "string list"
  outputFilePath :: string
  outputFolderPath :: string
  gzipOutput :: bool
  parameters :: 'p
  referencePath :: string
  targetRegions :: string
  unprocessedInputs :: "Input list"
  mutex :: "nat option"
  firstPrinted :: bool
  terminate :: bool

definition Workflow_new ::
  "bool \<Rightarrow> string list \<Rightarrow> string list \<Rightarrow> string list \<Rightarrow> string \<Rightarrow> string \<Rightarrow> bool \<Rightarrow> 'p
     \<Rightarrow> string \<Rightarrow> string \<Rightarrow> exn + 'p Workflow" where
  "Workflow_new jointInputs input_paths input_index_paths graph_spec_paths output_file_path
     output_folder_path gzip_output params reference_path target_regions =
     (let w = \<lparr>graphSpecPaths = graph_spec_paths, outputFilePath = output_file_path,
                outputFolderPath = output_folder_path, gzipOutput = gzip_output,
                parameters = params, referencePath = reference_path,
                targetRegions = target_regions, unprocessedInputs = [],
                mutex = None, firstPrinted = False, terminate = False\<rparr>
      in if jointInputs
         then Inr (w\<lparr>unprocessedInputs :=
                 [\<lparr>inputPaths = input_paths, inputIndexPaths = input_index_paths,
                   unprocessedGraphs = 0\<rparr>]\<rparr>)
         else if length input_index_paths < length input_paths then Inl Thrown
         else Inr (w\<lparr>unprocessedInputs :=
                 map (\<lambda>i. \<lparr>inputPaths = [input_paths ! i],
                            inputIndexPaths = [input_index_paths ! i],
                            unprocessedGraphs = 0\<rparr>) [0 ..< length input_paths]\<rparr>))"

subsection \<open>\<open>processGraph\<close>\<close>

fun extractAll :: "'p externals \<Rightarrow> 'p \<Rightarrow> BamReader list \<Rightarrow> Read list \<Rightarrow> Read list option" where
  "extractAll X params [] allReads = Some allReads"
| "extractAll X params (reader # readers) allReads =
     (case extractReads X reader params allReads of
        None \<Rightarrow> None
      | Some allReads' \<Rightarrow> extractAll X params readers allReads')"

fun appendPaths :: "string list \<Rightarrow> json \<Rightarrow> exn + json" where
  "appendPaths [] j = Inr j"
| "appendPaths (inputPath # rest) j =
     (case json_append ''bam'' (JString inputPath) j of
        Inl e \<Rightarrow> Inl e
      | Inr j' \<Rightarrow> appendPaths rest j')"

definition set_bam :: "string list \<Rightarrow> json \<Rightarrow> exn + json" where
  "set_bam input_paths outputJson =
     (if length input_paths = 1 then json_assign ''bam'' (JString (hd input_paths)) outputJson
      else (case json_assign ''bam'' (JArray []) outputJson of
              Inl e \<Rightarrow> Inl e
            | Inr j \<Rightarrow> appendPaths input_paths j))"

definition processGraph ::
  "'p externals \<Rightarrow> string \<Rightarrow> 'p \<Rightarrow> string list \<Rightarrow> BamReader list \<Rightarrow> exn + string" where
  "processGraph X graphSpecPath params input_paths readers =
     (case extractAll X params readers [] of
        None \<Rightarrow> Inl Thrown
      | Some allReads \<Rightarrow>
          (case alignAndDisambiguate X params allReads of
             None \<Rightarrow> Inl Thrown
           | Some outputJson \<Rightarrow>
               (case set_bam input_paths outputJson of
                  Inl e \<Rightarrow> Inl e
                | Inr j \<Rightarrow> Inr (writeJson X j))))"

subsection \<open>\<open>makeOutputFile\<close>\<close>

text \<open>
  The files written are a map from path to contents. Opening the sink creates the file
  or empties it; the text goes through the gzip filter when \<open>gzipOutput\<close> is set.
\<close>

definition outputPathOf :: "'p externals \<Rightarrow> string \<Rightarrow> bool \<Rightarrow> string \<Rightarrow> string" where
  "outputPathOf X folder gz graphSpecPath =
     (let outputPath = pathAppend X folder (pathFilename X graphSpecPath)
      in if gz then outputPath @ ''.gz'' else outputPath)"

definition makeOutputFile ::
  "'p externals \<Rightarrow> string \<Rightarrow> bool \<Rightarrow> (string \<rightharpoonup> string) \<Rightarrow> string \<Rightarrow> string
     \<Rightarrow> (string \<rightharpoonup> string) \<times> exn option" where
  "makeOutputFile X folder gz fs output graphSpecPath =
     (let outputPath = outputPathOf X folder gz graphSpecPath
      in if \<not> fileOpens X outputPath
         then (fs, Some (Error (open_error_message outputPath (sysError X outputPath))))
         else (let (fos, e) = dumpOutput X output
                                \<lparr>sinkName = outputPath, buffer = '''', failed = False\<rparr> outputPath
               in (fs(outputPath \<mapsto> (if gz then gzip X (buffer fos) else buffer fos)), e)))"

text \<open>Lines 210 to 213 of \<open>processGraphs\<close>: the file is made when a folder is configured.\<close>

definition writeUnitFile ::
  "'p externals \<Rightarrow> string \<Rightarrow> bool \<Rightarrow> (string \<rightharpoonup> string) \<Rightarrow> string \<Rightarrow> string
     \<Rightarrow> (string \<rightharpoonup> string) \<times> exn option" where
  "writeUnitFile X folder gz fs output graphSpecPath =
     (if folder \<noteq> '''' then makeOutputFile X folder gz fs output graphSpecPath else (fs, None))"

text \<open>The members of a JSON value that is an object.\<close>

definition members :: "json \<Rightarrow> (string \<times> json) list" where
  "members j = (case j of JObject ms \<Rightarrow> ms | _ \<Rightarrow> [])"


subsection \<open>\<open>processGraphs\<close>, run by every worker thread\<close>

text \<open>
  Each worker runs \<open>processGraphs\<close>. A worker is at one of the following places of the
  function; the arguments are the number of the input (the position in
  \<open>unprocessedInputs\<close>), the index of the claimed graph specification, and the locals
  \<open>failure\<close> and \<open>output\<close>.

  \<^item> \<open>ForHead i\<close>: before the \<open>lock_guard\<close> of the iteration for input \<open>i\<close> (line 179);
  \<^item> \<open>WhileHead i\<close>: at the test of the \<open>while\<close> loop (line 180);
  \<^item> \<open>OpenReaders i g\<close>: graph \<open>g\<close> is claimed, the readers are to be opened (lines 186 to 196);
  \<^item> \<open>CheckTerminate i g\<close>: at the test of \<open>terminate_\<close> (line 197);
  \<^item> \<open>LoadAndProcess i g\<close>: after the \<open>unlock_guard\<close>, before \<open>parameters.load\<close> and
    \<open>processGraph\<close> (lines 203 to 208), which work on the readers opened before;
  \<^item> \<open>MakeOutput i g output\<close>: before the per-unit file (lines 210 to 213);
  \<^item> \<open>Relock i g failure output\<close>: the destructor of the \<open>unlock_guard\<close>, which locks again;
  \<^item> \<open>Cleanup i g failure output\<close>: the cleanup function of the block (line 184);
  \<^item> \<open>WriteOutput i g output\<close>: the aggregated output (lines 216 to 224);
  \<^item> \<open>ForEnd i\<close>: the destructor of the \<open>lock_guard\<close> at the end of the iteration;
  \<^item> \<open>Finished\<close>: \<open>processGraphs\<close> has returned; \<open>Aborted\<close>: it was left by an exception.
\<close>

datatype pc =
    ForHead nat
  | WhileHead nat
  | OpenReaders nat nat
  | CheckTerminate nat nat
  | LoadAndProcess nat nat
  | MakeOutput nat nat string
  | Relock nat nat bool string
  | Cleanup nat nat bool string
  | WriteOutput nat nat string
  | ForEnd nat
  | Finished
  | Aborted

text \<open>
  What a worker has done is recorded in a trace, each entry with the number of the
  thread and whether that thread owned the mutex at that moment.
\<close>

datatype action =
    ClaimedPath nat nat
  | OpenedReaders nat nat
  | LoadedParameters nat nat
  | ProcessedGraph nat nat
  | WroteUnitFile nat nat
  | WroteAggregated nat nat string
  | Abandoned nat nat

record 'p system = "'p Workflow" +
  threads :: "pc list"
  outputFileStream :: ostream
  files :: "string \<rightharpoonup> string"
  trace :: "(nat \<times> bool \<times> action) list"

definition readersOf :: "'p externals \<Rightarrow> string \<Rightarrow> Input \<Rightarrow> BamReader list option" where
  "readersOf X reference_path input =
     (if length (inputIndexPaths input) < length (inputPaths input) then None
      else if list_all (\<lambda>(p, ix). openReader X p ix reference_path)
                (zip (inputPaths input) (inputIndexPaths input))
      then Some (map (\<lambda>(p, ix). \<lparr>bamPath = p, bamIndexPath = ix, readerReference = reference_path\<rparr>)
                  (zip (inputPaths input) (inputIndexPaths input)))
      else None)"

definition loadAndProcess :: "'p externals \<Rightarrow> 'p system \<Rightarrow> nat \<Rightarrow> nat \<Rightarrow> exn + string" where
  "loadAndProcess X s i g =
     (let input = unprocessedInputs s ! i; graphSpecPath = graphSpecPaths s ! g
      in case readersOf X (referencePath s) input of
           None \<Rightarrow> Inl Thrown
         | Some readers \<Rightarrow>
             (case loadParameters X (parameters s) graphSpecPath (referencePath s) (targetRegions s) of
                None \<Rightarrow> Inl Thrown
              | Some params \<Rightarrow> processGraph X graphSpecPath params (inputPaths input) readers))"

definition goto :: "nat \<Rightarrow> pc \<Rightarrow> 'p system \<Rightarrow> 'p system" where
  "goto t p s = s\<lparr>threads := (threads s)[t := p]\<rparr>"

definition record_action :: "nat \<Rightarrow> action \<Rightarrow> 'p system \<Rightarrow> 'p system" where
  "record_action t a s = s\<lparr>trace := trace s @ [(t, mutex s = Some t, a)]\<rparr>"

text \<open>
  One step of thread \<open>t\<close> from the place \<open>p\<close>; \<open>None\<close> when the thread cannot move: it
  waits for the mutex, or it has left \<open>processGraphs\<close>.
\<close>

fun thread_step :: "'p externals \<Rightarrow> nat \<Rightarrow> pc \<Rightarrow> 'p system \<Rightarrow> 'p system option" where
  "thread_step X t (ForHead i) s =
     (if length (unprocessedInputs s) \<le> i then Some (goto t Finished s)
      else if mutex s \<noteq> None then None
      else Some (goto t (WhileHead i) (s\<lparr>mutex := Some t\<rparr>)))"
| "thread_step X t (WhileHead i) s =
     (let input = unprocessedInputs s ! i; g = unprocessedGraphs input
      in if length (graphSpecPaths s) \<noteq> g
         then Some (goto t (OpenReaders i g) (record_action t (ClaimedPath i g)
                (s\<lparr>unprocessedInputs :=
                     (unprocessedInputs s)[i := input\<lparr>unprocessedGraphs := g + 1\<rparr>]\<rparr>)))
         else Some (goto t (ForEnd i) s))"
| "thread_step X t (OpenReaders i g) s =
     (case readersOf X (referencePath s) (unprocessedInputs s ! i) of
        None \<Rightarrow> Some (goto t (Cleanup i g True '''') s)
      | Some readers \<Rightarrow>
          Some (goto t (CheckTerminate i g) (record_action t (OpenedReaders i g) s)))"
| "thread_step X t (CheckTerminate i g) s =
     (if terminate s
      then Some (goto t (ForEnd i) (record_action t (Abandoned i g)
             (s\<lparr>terminate := (terminate s \<or> False)\<rparr>)))
      else Some (goto t (LoadAndProcess i g) (s\<lparr>mutex := None\<rparr>)))"
| "thread_step X t (LoadAndProcess i g) s =
     (case loadAndProcess X s i g of
        Inl e \<Rightarrow> Some (goto t (Relock i g True '''') (record_action t (LoadedParameters i g) s))
      | Inr output \<Rightarrow>
          Some (goto t (MakeOutput i g output)
            (record_action t (ProcessedGraph i g) (record_action t (LoadedParameters i g) s))))"
| "thread_step X t (MakeOutput i g output) s =
     (let (fs, e) = writeUnitFile X (outputFolderPath s) (gzipOutput s) (files s) output
                      (graphSpecPaths s ! g);
          s' = (if outputFolderPath s \<noteq> '''' then record_action t (WroteUnitFile i g) s else s)
      in Some (goto t (Relock i g (e \<noteq> None) output) (s'\<lparr>files := fs\<rparr>)))"
| "thread_step X t (Relock i g failure output) s =
     (if mutex s \<noteq> None then None
      else Some (goto t (Cleanup i g failure output) (s\<lparr>mutex := Some t\<rparr>)))"
| "thread_step X t (Cleanup i g failure output) s =
     (if failure \<and> rethrows X
      then Some (goto t Aborted (s\<lparr>terminate := (terminate s \<or> failure), mutex := None\<rparr>))
      else Some (goto t (WriteOutput i g output) (s\<lparr>terminate := (terminate s \<or> failure)\<rparr>)))"
| "thread_step X t (WriteOutput i g output) s =
     (if outputFilePath s \<noteq> ''''
      then (let os = (if firstPrinted s then os_write X (outputFileStream s) '','' else outputFileStream s);
                (os', e) = dumpOutput X output os (outputFilePath s)
            in if e \<noteq> None
               then Some (goto t Aborted (s\<lparr>outputFileStream := os', mutex := None\<rparr>))
               else Some (goto t (WhileHead i) (record_action t (WroteAggregated i g output)
                      (s\<lparr>outputFileStream := os', firstPrinted := True\<rparr>))))
      else Some (goto t (WhileHead i) s))"
| "thread_step X t (ForEnd i) s = Some (goto t (ForHead (i + 1)) (s\<lparr>mutex := None\<rparr>))"
| "thread_step X t Finished s = None"
| "thread_step X t Aborted s = None"

definition step :: "'p externals \<Rightarrow> nat \<Rightarrow> 'p system \<Rightarrow> 'p system option" where
  "step X t s = (if length (threads s) \<le> t then None else thread_step X t (threads s ! t) s)"

text \<open>The places at which a worker owns the mutex.\<close>

fun holds_lock :: "pc \<Rightarrow> bool" where
  "holds_lock (ForHead i) = False"
| "holds_lock (WhileHead i) = True"
| "holds_lock (OpenReaders i g) = True"
| "holds_lock (CheckTerminate i g) = True"
| "holds_lock (LoadAndProcess i g) = False"
| "holds_lock (MakeOutput i g output) = False"
| "holds_lock (Relock i g failure output) = False"
| "holds_lock (Cleanup i g failure output) = True"
| "holds_lock (WriteOutput i g output) = True"
| "holds_lock (ForEnd i) = True"
| "holds_lock Finished = False"
| "holds_lock Aborted = False"

text \<open>
  A schedule is the list of the threads that are given the processor, one step each; a
  thread that cannot move when its turn comes leaves the state as it is.
\<close>

fun exec :: "'p externals \<Rightarrow> nat list \<Rightarrow> 'p system \<Rightarrow> 'p system" where
  "exec X [] s = s"
| "exec X (t # ts) s = exec X ts (case step X t s of None \<Rightarrow> s | Some s' \<Rightarrow> s')"

subsection \<open>\<open>run\<close>\<close>

definition start :: "'p Workflow \<Rightarrow> nat \<Rightarrow> ostream \<Rightarrow> 'p system" where
  "start w n fos = Workflow.extend w
     (system.fields (replicate n (ForHead 0)) fos Map.empty [])"

definition framed :: "'p Workflow \<Rightarrow> bool" where
  "framed w \<longleftrightarrow> outputFilePath w \<noteq> '''' \<and> 1 < length (graphSpecPaths w)"

text \<open>
  \<open>run\<close> with \<open>n\<close> worker threads under a schedule. The threads of
  \<open>common::CPU_THREADS\<close> (common/Threads.hh) are the workers of the model;
  \<open>execute\<close> returns when every worker has left \<open>processGraphs\<close>. What it does when
  a worker was left by an exception is not in the sources, and so the model gives a
  result (\<open>Some\<close>) when the schedule has brought every worker to the end of
  \<open>processGraphs\<close>, and none otherwise. The text that is written goes through the
  gzip filter when \<open>gzipOutput\<close> is set; the buffer of the stream is the text before
  that filter.
\<close>

definition run :: "'p externals \<Rightarrow> nat \<Rightarrow> nat list \<Rightarrow> 'p Workflow \<Rightarrow> (exn + 'p system) option" where
  "run X n sched w =
     (if outputFilePath w \<noteq> '''' \<and> outputFilePath w \<noteq> ''-'' \<and> \<not> fileOpens X (outputFilePath w)
      then Some (Inl (Error (open_error_message (outputFilePath w) (sysError X (outputFilePath w)))))
      else (let fos = \<lparr>sinkName = outputFilePath w, buffer = '''', failed = False\<rparr>;
                fos' = (if framed w then os_write X fos ''['' else fos);
                s = exec X sched (start w n fos')
            in if list_all (\<lambda>p. p = Finished) (threads s)
               then Some (Inr (if framed w
                               then s\<lparr>outputFileStream := os_write X (outputFileStream s) ('']'' @ [CHR 0x0A])\<rparr>
                               else s))
               else None))"


subsection \<open>What the trace records, and the invariants of the scheduler\<close>

text \<open>
  The graph indices claimed for input \<open>i\<close>, all claimed units, and the units written to
  the aggregated stream with the text written, each in the order of the trace.
\<close>

fun claim_of :: "nat \<Rightarrow> nat \<times> bool \<times> action \<Rightarrow> nat option" where
  "claim_of i (t, held, ClaimedPath i' g) = (if i' = i then Some g else None)"
| "claim_of i (t, held, OpenedReaders i' g) = None"
| "claim_of i (t, held, LoadedParameters i' g) = None"
| "claim_of i (t, held, ProcessedGraph i' g) = None"
| "claim_of i (t, held, WroteUnitFile i' g) = None"
| "claim_of i (t, held, WroteAggregated i' g output) = None"
| "claim_of i (t, held, Abandoned i' g) = None"

definition claims :: "nat \<Rightarrow> (nat \<times> bool \<times> action) list \<Rightarrow> nat list" where
  "claims i tr = List.map_filter (claim_of i) tr"

fun claimed_unit :: "nat \<times> bool \<times> action \<Rightarrow> (nat \<times> nat) option" where
  "claimed_unit (t, held, ClaimedPath i g) = Some (i, g)"
| "claimed_unit (t, held, OpenedReaders i g) = None"
| "claimed_unit (t, held, LoadedParameters i g) = None"
| "claimed_unit (t, held, ProcessedGraph i g) = None"
| "claimed_unit (t, held, WroteUnitFile i g) = None"
| "claimed_unit (t, held, WroteAggregated i g output) = None"
| "claimed_unit (t, held, Abandoned i g) = None"

definition claimed_units :: "(nat \<times> bool \<times> action) list \<Rightarrow> (nat \<times> nat) list" where
  "claimed_units tr = List.map_filter claimed_unit tr"

fun emit_of :: "nat \<times> bool \<times> action \<Rightarrow> ((nat \<times> nat) \<times> string) option" where
  "emit_of (t, held, ClaimedPath i g) = None"
| "emit_of (t, held, OpenedReaders i g) = None"
| "emit_of (t, held, LoadedParameters i g) = None"
| "emit_of (t, held, ProcessedGraph i g) = None"
| "emit_of (t, held, WroteUnitFile i g) = None"
| "emit_of (t, held, WroteAggregated i g output) = Some ((i, g), output)"
| "emit_of (t, held, Abandoned i g) = None"

definition emitted :: "(nat \<times> bool \<times> action) list \<Rightarrow> ((nat \<times> nat) \<times> string) list" where
  "emitted tr = List.map_filter emit_of tr"

text \<open>The items of the aggregated stream, with a comma before every item but the first.\<close>

fun join_items :: "string list \<Rightarrow> string" where
  "join_items [] = ''''"
| "join_items (x # xs) = x @ concat (map (\<lambda>y. '','' @ y) xs)"


text \<open>
  A workflow as the constructor leaves it: nothing claimed, the mutex free, nothing
  printed, no failure seen.
\<close>

definition fresh :: "'p Workflow \<Rightarrow> bool" where
  "fresh w \<longleftrightarrow> mutex w = None \<and> \<not> firstPrinted w \<and> \<not> terminate w \<and>
     list_all (\<lambda>input. unprocessedGraphs input = 0) (unprocessedInputs w)"

text \<open>The mutex is owned by the one thread that is at a place inside a locked region.\<close>

definition lock_inv :: "'p system \<Rightarrow> bool" where
  "lock_inv s \<longleftrightarrow>
     (\<forall>t < length (threads s). holds_lock (threads s ! t) \<longleftrightarrow> mutex s = Some t) \<and>
     (\<forall>t. mutex s = Some t \<longrightarrow> t < length (threads s))"

text \<open>The actions that the source performs inside a locked region.\<close>

fun under_lock :: "action \<Rightarrow> bool" where
  "under_lock (ClaimedPath i g) = True"
| "under_lock (OpenedReaders i g) = True"
| "under_lock (LoadedParameters i g) = False"
| "under_lock (ProcessedGraph i g) = False"
| "under_lock (WroteUnitFile i g) = False"
| "under_lock (WroteAggregated i g output) = True"
| "under_lock (Abandoned i g) = True"

definition trace_inv :: "'p system \<Rightarrow> bool" where
  "trace_inv s \<longleftrightarrow> list_all (\<lambda>(t, held, a). held = under_lock a) (trace s)"

text \<open>The input and the graph at each place are within the two lists.\<close>

fun pc_ok :: "nat \<Rightarrow> nat \<Rightarrow> pc \<Rightarrow> bool" where
  "pc_ok m n (ForHead i) = True"
| "pc_ok m n (WhileHead i) = (i < m)"
| "pc_ok m n (OpenReaders i g) = (i < m \<and> g < n)"
| "pc_ok m n (CheckTerminate i g) = (i < m \<and> g < n)"
| "pc_ok m n (LoadAndProcess i g) = (i < m \<and> g < n)"
| "pc_ok m n (MakeOutput i g output) = (i < m \<and> g < n)"
| "pc_ok m n (Relock i g failure output) = (i < m \<and> g < n)"
| "pc_ok m n (Cleanup i g failure output) = (i < m \<and> g < n)"
| "pc_ok m n (WriteOutput i g output) = (i < m \<and> g < n)"
| "pc_ok m n (ForEnd i) = (i < m)"
| "pc_ok m n Finished = True"
| "pc_ok m n Aborted = True"

text \<open>The part of the state that no step changes.\<close>

definition config :: "'p system \<Rightarrow>
    string list \<times> string \<times> string \<times> bool \<times> 'p \<times> string \<times> string \<times> string list list \<times> string list list \<times> nat" where
  "config s = (graphSpecPaths s, outputFilePath s, outputFolderPath s, gzipOutput s,
     parameters s, referencePath s, targetRegions s,
     map inputPaths (unprocessedInputs s), map inputIndexPaths (unprocessedInputs s),
     length (threads s))"

definition cursor :: "'p system \<Rightarrow> nat \<Rightarrow> nat" where
  "cursor s i = unprocessedGraphs (unprocessedInputs s ! i)"

definition claim_inv :: "'p system \<Rightarrow> bool" where
  "claim_inv s \<longleftrightarrow>
     (\<forall>t < length (threads s).
        pc_ok (length (unprocessedInputs s)) (length (graphSpecPaths s)) (threads s ! t)) \<and>
     (\<forall>i < length (unprocessedInputs s).
        claims i (trace s) = [0 ..< cursor s i] \<and> cursor s i \<le> length (graphSpecPaths s)) \<and>
     (\<forall>u \<in> set (claimed_units (trace s)). fst u < length (unprocessedInputs s))"

text \<open>
  The unit that a worker is busy with, and the inputs that a worker knows to be
  finished: each is exhausted, or the termination flag is set.
\<close>

fun unit_of :: "pc \<Rightarrow> (nat \<times> nat) multiset" where
  "unit_of (ForHead i) = {#}"
| "unit_of (WhileHead i) = {#}"
| "unit_of (OpenReaders i g) = {#(i, g)#}"
| "unit_of (CheckTerminate i g) = {#(i, g)#}"
| "unit_of (LoadAndProcess i g) = {#(i, g)#}"
| "unit_of (MakeOutput i g output) = {#(i, g)#}"
| "unit_of (Relock i g failure output) = {#(i, g)#}"
| "unit_of (Cleanup i g failure output) = {#(i, g)#}"
| "unit_of (WriteOutput i g output) = {#(i, g)#}"
| "unit_of (ForEnd i) = {#}"
| "unit_of Finished = {#}"
| "unit_of Aborted = {#}"

definition in_progress :: "'p system \<Rightarrow> (nat \<times> nat) multiset" where
  "in_progress s = sum_list (map unit_of (threads s))"

fun passed :: "nat \<Rightarrow> pc \<Rightarrow> nat" where
  "passed m (ForHead i) = i"
| "passed m (WhileHead i) = i"
| "passed m (OpenReaders i g) = i"
| "passed m (CheckTerminate i g) = i"
| "passed m (LoadAndProcess i g) = i"
| "passed m (MakeOutput i g output) = i"
| "passed m (Relock i g failure output) = i"
| "passed m (Cleanup i g failure output) = i"
| "passed m (WriteOutput i g output) = i"
| "passed m (ForEnd i) = i + 1"
| "passed m Finished = m"
| "passed m Aborted = 0"

definition exhausted :: "'p system \<Rightarrow> nat \<Rightarrow> bool" where
  "exhausted s i \<longleftrightarrow> cursor s i = length (graphSpecPaths s) \<or> terminate s"

definition progress_inv :: "'p system \<Rightarrow> bool" where
  "progress_inv s \<longleftrightarrow>
     (\<forall>t < length (threads s). \<forall>i < length (unprocessedInputs s).
        i < passed (length (unprocessedInputs s)) (threads s ! t) \<longrightarrow> exhausted s i)"

text \<open>
  No worker has met a failure so far: the flag is not set and no worker has left by
  an exception.
\<close>

definition none_aborted :: "'p system \<Rightarrow> bool" where
  "none_aborted s \<longleftrightarrow> (\<forall>t < length (threads s). threads s ! t \<noteq> Aborted)"

definition undisturbed :: "'p system \<Rightarrow> bool" where
  "undisturbed s \<longleftrightarrow> \<not> terminate s \<and> none_aborted s"

text \<open>The output that a worker carries, when it has not failed, is the output of its unit.\<close>

fun output_ok :: "'p externals \<Rightarrow> 'p system \<Rightarrow> pc \<Rightarrow> bool" where
  "output_ok X s (MakeOutput i g output) = (loadAndProcess X s i g = Inr output)"
| "output_ok X s (Relock i g failure output) = (\<not> failure \<longrightarrow> loadAndProcess X s i g = Inr output)"
| "output_ok X s (Cleanup i g failure output) = (\<not> failure \<longrightarrow> loadAndProcess X s i g = Inr output)"
| "output_ok X s (WriteOutput i g output) = (\<not> terminate s \<longrightarrow> loadAndProcess X s i g = Inr output)"
| "output_ok X s (ForHead i) = True"
| "output_ok X s (WhileHead i) = True"
| "output_ok X s (OpenReaders i g) = True"
| "output_ok X s (CheckTerminate i g) = True"
| "output_ok X s (LoadAndProcess i g) = True"
| "output_ok X s (ForEnd i) = True"
| "output_ok X s Finished = True"
| "output_ok X s Aborted = True"

definition output_inv :: "'p externals \<Rightarrow> 'p system \<Rightarrow> bool" where
  "output_inv X s \<longleftrightarrow>
     (\<forall>t < length (threads s). output_ok X s (threads s ! t)) \<and>
     (\<not> terminate s \<longrightarrow>
        (\<forall>((i, g), output) \<in> set (emitted (trace s)). loadAndProcess X s i g = Inr output))"

text \<open>
  Every unit written to the aggregated stream, and every unit a worker is busy with,
  has been claimed, each as often as it was claimed; while no worker has met a
  failure, no claimed unit is lost.
\<close>

definition units_inv :: "'p system \<Rightarrow> bool" where
  "units_inv s \<longleftrightarrow>
     mset (map fst (emitted (trace s))) + in_progress s \<subseteq># mset (claimed_units (trace s)) \<and>
     (undisturbed s \<and> outputFilePath s \<noteq> '''' \<longrightarrow>
        mset (claimed_units (trace s)) = mset (map fst (emitted (trace s))) + in_progress s)"

text \<open>
  While no worker has left by an exception, the aggregated stream holds what it held
  before the workers started, followed by the items written, with their separators.
\<close>

definition buffer_inv :: "string \<Rightarrow> 'p system \<Rightarrow> bool" where
  "buffer_inv before s \<longleftrightarrow>
     (none_aborted s \<longrightarrow>
        buffer (outputFileStream s) = before @ join_items (map snd (emitted (trace s))) \<and>
        (firstPrinted s \<longleftrightarrow> emitted (trace s) \<noteq> []))"

text \<open>All the invariants together.\<close>

definition invariant :: "'p externals \<Rightarrow> string \<Rightarrow> 'p system \<Rightarrow> bool" where
  "invariant X before s \<longleftrightarrow>
     lock_inv s \<and> trace_inv s \<and> claim_inv s \<and> progress_inv s \<and> units_inv s \<and>
     output_inv X s \<and> buffer_inv before s"

text \<open>The worker has left the loop over the graph specifications for input \<open>i\<close>.\<close>

fun left_group :: "nat \<Rightarrow> pc \<Rightarrow> bool" where
  "left_group i (ForHead j) = (i < j)"
| "left_group i (WhileHead j) = (i < j)"
| "left_group i (OpenReaders j g) = (i < j)"
| "left_group i (CheckTerminate j g) = (i < j)"
| "left_group i (LoadAndProcess j g) = (i < j)"
| "left_group i (MakeOutput j g output) = (i < j)"
| "left_group i (Relock j g failure output) = (i < j)"
| "left_group i (Cleanup j g failure output) = (i < j)"
| "left_group i (WriteOutput j g output) = (i < j)"
| "left_group i (ForEnd j) = (i \<le> j)"
| "left_group i Finished = True"
| "left_group i Aborted = True"

subsection \<open>Failure of a unit\<close>



subsection \<open>A measure of the work left\<close>





subsection \<open>Runs in which nothing fails\<close>





subsection \<open>Example collaborators and runs\<close>

text \<open>
  Collaborators for the example runs: the parameters are the path of the graph
  specification, loading them fails for the path \<open>bad.json\<close> and for no other, the
  serialiser shows the graph and the \<open>bam\<close> member, and the file name of a path is what
  follows its last slash.
\<close>

definition show_unit :: "json \<Rightarrow> string" where
  "show_unit j =
     (case j of
        JObject ms \<Rightarrow>
          (case map_of ms ''graph'' of Some (JString g) \<Rightarrow> ''{'' @ g @ '':'' | _ \<Rightarrow> ''{'')
          @ (case map_of ms ''bam'' of
               Some (JString b) \<Rightarrow> b
             | Some (JArray xs) \<Rightarrow>
                 ''['' @ concat (map (\<lambda>x. case x of JString b \<Rightarrow> b @ '';'' | _ \<Rightarrow> ''?'') xs) @ '']''
             | _ \<Rightarrow> ''-'')
          @ ''}''
      | _ \<Rightarrow> ''null'')"

definition posix_filename :: "string \<Rightarrow> string" where
  "posix_filename p = rev (takeWhile (\<lambda>c. c \<noteq> CHR ''/'') (rev p))"

definition example_externals :: "string externals" where
  "example_externals =
     \<lparr>openReader = (\<lambda>p ix r. True),
      loadParameters = (\<lambda>params g r t. if g = ''bad.json'' then None else Some g),
      extractReads = (\<lambda>reader params allReads. Some allReads),
      alignAndDisambiguate = (\<lambda>params allReads. Some (JObject [(''graph'', JString params)])),
      writeJson = show_unit,
      pathFilename = posix_filename,
      pathAppend = (\<lambda>a b. a @ ''/'' @ b),
      fileOpens = (\<lambda>p. p \<noteq> ''nodir/g1.json''),
      sinkAccepts = (\<lambda>nm txt. True),
      sysError = (\<lambda>p. ''No such file or directory''),
      gzip = (\<lambda>txt. ''gzip:'' @ txt),
      rethrows = True\<rparr>"

text \<open>Two read sources that are not joint, and one graph specification: two units.\<close>

definition two_inputs_one_graph :: "string Workflow" where
  "two_inputs_one_graph =
     \<lparr>graphSpecPaths = [''g.json''], outputFilePath = ''out.json'', outputFolderPath = [],
      gzipOutput = False, parameters = [], referencePath = ''ref.fa'', targetRegions = [],
      unprocessedInputs =
        [\<lparr>inputPaths = [''a.bam''], inputIndexPaths = [''a.bai''], unprocessedGraphs = 0\<rparr>,
         \<lparr>inputPaths = [''b.bam''], inputIndexPaths = [''b.bai''], unprocessedGraphs = 0\<rparr>],
      mutex = None, firstPrinted = False, terminate = False\<rparr>"

text \<open>One read source, two graph specifications, a folder for the per-unit files.\<close>

definition one_input_two_graphs :: "string Workflow" where
  "one_input_two_graphs =
     \<lparr>graphSpecPaths = [''x/g1.json'', ''y/g2.json''], outputFilePath = ''out.json'',
      outputFolderPath = ''dir'',
      gzipOutput = False, parameters = [], referencePath = ''ref.fa'', targetRegions = [],
      unprocessedInputs =
        [\<lparr>inputPaths = [''a.bam''], inputIndexPaths = [''a.bai''], unprocessedGraphs = 0\<rparr>],
      mutex = None, firstPrinted = False, terminate = False\<rparr>"

text \<open>One read source and three graph specifications, the first of which fails to load.\<close>

definition one_bad_graph :: "string Workflow" where
  "one_bad_graph =
     \<lparr>graphSpecPaths = [''bad.json'', ''g2.json'', ''g3.json''], outputFilePath = ''out.json'',
      outputFolderPath = [],
      gzipOutput = False, parameters = [], referencePath = ''ref.fa'', targetRegions = [],
      unprocessedInputs =
        [\<lparr>inputPaths = [''a.bam''], inputIndexPaths = [''a.bai''], unprocessedGraphs = 0\<rparr>],
      mutex = None, firstPrinted = False, terminate = False\<rparr>"

text \<open>The stream that \<open>run\<close> hands to the workers for the examples with two or more graphs.\<close>

definition example_stream :: ostream where
  "example_stream = \<lparr>sinkName = ''out.json'', buffer = ''['', failed = False\<rparr>"

text \<open>
  Two workers on \<open>one_input_two_graphs\<close>: the first claims a unit and goes through the
  expensive stage, the second takes the mutex, and then the first writes its per-unit
  file.
\<close>

definition file_written_unlocked :: "string system" where
  "file_written_unlocked =
     exec example_externals [0, 0, 0, 0, 0, 1, 0] (start one_input_two_graphs 2 example_stream)"


text \<open>
  Three workers on \<open>one_bad_graph\<close>. The first claims \<open>bad.json\<close> and fails in the
  expensive stage; the second claims \<open>g2.json\<close> and enters the expensive stage; the
  first takes the mutex again, sets the termination flag and leaves; the third claims
  \<open>g3.json\<close>, opens the readers and stands before the test of the flag.
\<close>

definition flag_set :: "string system" where
  "flag_set =
     exec example_externals [0, 0, 0, 0, 0, 1, 1, 1, 1, 0, 0, 2, 2, 2]
       (start one_bad_graph 3 example_stream)"





section \<open>Properties of the binary64 operations\<close>

lemma bitlen_nat_0: "bitlen_nat 0 = 0"
  by (simp add: bitlen_nat.simps)

lemma bitlen_nat_pos: "0 < n \<Longrightarrow> bitlen_nat n = Suc (bitlen_nat (n div 2))"
  by (subst bitlen_nat.simps) simp

lemmas bitlen_nat_eval = bitlen_nat_0 bitlen_nat_pos

lemma bitlen_nat_le: "n < 2 ^ k \<Longrightarrow> bitlen_nat n \<le> k"
proof (induction n arbitrary: k rule: bitlen_nat.induct)
  case (1 n)
  show ?case
  proof (cases "n = 0")
    case True
    then show ?thesis by (simp add: bitlen_nat_0)
  next
    case False
    with "1.prems" obtain j where k: "k = Suc j"
      by (cases k) auto
    from "1.prems" k have "n div 2 < 2 ^ j" by auto
    with "1.IH" [OF False] have "bitlen_nat (n div 2) \<le> j" .
    with False k show ?thesis by (simp add: bitlen_nat_pos)
  qed
qed

lemma pow2_pos: "0 < pow2 e"
  by (simp add: pow2_def)

lemma pow2_nonneg_eq: "0 \<le> e \<Longrightarrow> pow2 e = 2 ^ nat e"
  by (simp add: pow2_def)

lemma pow2_add: "pow2 (a + b) = pow2 a * pow2 b"
proof -
  have "pow2 e = 2 powi e" for e
    by (simp add: pow2_def power_int_def field_simps)
  then show ?thesis by (simp add: power_int_add)
qed

lemma double_of_nat_exact: "n < 2 ^ 53 \<Longrightarrow> double_of_nat n = Fin (int n) 0"
proof -
  assume n: "n < 2 ^ 53"
  then have b: "bitlen_nat n \<le> 53" by (rule bitlen_nat_le)
  then have s: "nat (max (int (bitlen_nat n) - 53) (- 1074 - 0)) = 0" by simp
  have "sgn (int n) * int n = int n" by (cases "n = 0") simp_all
  then show ?thesis
    using b by (simp add: double_of_nat_def round64_def Let_def s round_even_def)
qed

lemma dless_Fin: "dless (Fin m e) (Fin m' e') \<longleftrightarrow> dval (Fin m e) < dval (Fin m' e')"
proof -
  define k where "k = min e e'"
  have e: "pow2 e = pow2 k * 2 ^ nat (e - k)" and e': "pow2 e' = pow2 k * 2 ^ nat (e' - k)"
    using pow2_add [of k "e - k"] pow2_add [of k "e' - k"]
    by (simp_all add: k_def pow2_nonneg_eq)
  have "dval (Fin m e) < dval (Fin m' e') \<longleftrightarrow>
        pow2 k * of_int (m * 2 ^ nat (e - k)) < pow2 k * of_int (m' * 2 ^ nat (e' - k))"
    by (simp add: e e' mult_ac)
  also have "\<dots> \<longleftrightarrow> (of_int (m * 2 ^ nat (e - k)) :: rat) < of_int (m' * 2 ^ nat (e' - k))"
    using pow2_pos [of k] by (simp only: mult_less_cancel_left_pos)
  also have "\<dots> \<longleftrightarrow> m * 2 ^ nat (e - k) < m' * 2 ^ nat (e' - k)"
    by (simp only: of_int_less_iff)
  finally show ?thesis by (simp add: k_def)
qed

lemma round_half_away_of_int: "round_half_away (of_int z) = z"
  by (simp add: round_half_away_def) linarith

lemma dval_c_round: "dval (c_round (Fin m e)) = of_int (round_half_away (dval (Fin m e)))"
proof (cases "0 \<le> e")
  case True
  then have "dval (Fin m e) = of_int (m * 2 ^ nat e)"
    by (simp add: pow2_nonneg_eq)
  then show ?thesis using True
    by (simp only: round_half_away_of_int c_round.simps if_True)
next
  case False
  define k where "k = nat (- e)"
  have k: "0 < k" using False by (simp add: k_def)
  have v: "dval (Fin m e) = of_int m / 2 ^ k"
    using False by (simp add: pow2_def k_def)
  have half: "(1 / 2 :: rat) = of_int (2 ^ (k - 1)) / 2 ^ k"
    using k by (cases k) simp_all
  have fl: "\<lfloor>of_int a / (2 ^ k :: rat) + 1 / 2\<rfloor> = (a + 2 ^ (k - 1)) div 2 ^ k" for a :: int
  proof -
    have "of_int a / (2 ^ k :: rat) + 1 / 2 = of_int (a + 2 ^ (k - 1)) / of_int (2 ^ k)"
      by (subst half) (simp add: add_divide_distrib)
    then show ?thesis by (simp only: floor_divide_of_int_eq)
  qed
  show ?thesis
  proof (cases "m < 0")
    case True
    then have neg: "of_int m / (2 ^ k :: rat) < 0"
      by (simp add: divide_neg_pos)
    have "- (of_int m / (2 ^ k :: rat)) = of_int (- m) / 2 ^ k" by simp
    then have "round_half_away (of_int m / (2 ^ k :: rat)) = - ((- m + 2 ^ (k - 1)) div 2 ^ k)"
      using neg fl [of "- m"] by (simp add: round_half_away_def)
    then have "round_half_away (dval (Fin m e)) = - ((\<bar>m\<bar> + 2 ^ (k - 1)) div 2 ^ k)"
      using True by (simp only: v abs_of_neg)
    moreover have "sgn m = - 1" using True by simp
    ultimately show ?thesis using \<open>\<not> 0 \<le> e\<close> by (simp add: k_def pow2_def)
  next
    case nonneg: False
    then have "\<not> of_int m / (2 ^ k :: rat) < 0"
      by (simp add: not_less)
    then have "round_half_away (of_int m / (2 ^ k :: rat)) = (m + 2 ^ (k - 1)) div 2 ^ k"
      using fl [of m] by (simp add: round_half_away_def)
    then have r: "round_half_away (dval (Fin m e)) = (m + 2 ^ (k - 1)) div 2 ^ k"
      by (simp only: v)
    show ?thesis
    proof (cases "m = 0")
      case True
      then show ?thesis using \<open>\<not> 0 \<le> e\<close> r k by (simp add: k_def pow2_def)
    next
      case False
      with nonneg have "sgn m = 1" "\<bar>m\<bar> = m" by simp_all
      with \<open>\<not> 0 \<le> e\<close> r show ?thesis by (simp add: k_def pow2_def)
    qed
  qed
qed

lemma foldl_clipped:
  "acc + sum_list (map numClipped alns) < size_t_range \<Longrightarrow>
   foldl (\<lambda>query_clipped aln. (query_clipped + numClipped aln) mod size_t_range) acc alns =
     acc + sum_list (map numClipped alns)"
  by (induction alns arbitrary: acc) (simp_all add: add.assoc)

lemma sum_clipped_eq:
  "sum_list (map numClipped alns) < size_t_range \<Longrightarrow>
   sum_clipped alns = sum_list (map numClipped alns)"
  using foldl_clipped [of 0 alns] by (simp add: sum_clipped_def)

lemma query_aligned_eq:
  "c \<le> q \<Longrightarrow> q < size_t_range \<Longrightarrow> (q + size_t_range - c) mod size_t_range = q - c"
proof -
  assume a: "c \<le> q" "q < size_t_range"
  then have "q + size_t_range - c = (q - c) + size_t_range" by simp
  moreover have "q - c < size_t_range" using a by simp
  ultimately show ?thesis by (simp only: mod_add_self2 mod_less)
qed

lemma c_round_Fin: "\<exists>m' e'. c_round (Fin m e) = Fin m' e'"
  by (cases "0 \<le> e") simp_all

lemma dval_Fin_int: "dval (Fin z 0) = of_int z"
  by (simp add: pow2_def)

lemma dless_nat_c_round:
  assumes "n < 2 ^ 53"
  shows "dless (double_of_nat n) (c_round (Fin m e)) \<longleftrightarrow> int n < round_half_away (dval (Fin m e))"
proof -
  obtain m' e' where cr: "c_round (Fin m e) = Fin m' e'"
    using c_round_Fin by blast
  have "dless (double_of_nat n) (c_round (Fin m e)) \<longleftrightarrow>
        dval (Fin (int n) 0) < dval (c_round (Fin m e))"
    by (simp only: double_of_nat_exact [OF assms] cr dless_Fin)
  also have "\<dots> \<longleftrightarrow> (of_int (int n) :: rat) < of_int (round_half_away (dval (Fin m e)))"
    by (simp only: dval_c_round dval_Fin_int)
  also have "\<dots> \<longleftrightarrow> int n < round_half_away (dval (Fin m e))"
    by (simp only: of_int_less_iff)
  finally show ?thesis .
qed

section \<open>The bad-alignment filter\<close>

lemma double_0_8_nearest: "\<bar>dval double_0_8 - 8 / 10\<bar> < pow2 (- 54)"
  by (simp add: double_0_8_def pow2_def)

text \<open>
  Claim C1. For a read whose decoded alignment has query length \<open>q\<close> (below \<open>2 ^ 53\<close>,
  so that the conversions to \<open>double\<close> are exact) and clipped lengths that sum to at
  most \<open>q\<close>, \<open>filterRead\<close> excludes the read, with the reason \<open>bad_align\<close>, exactly when
  the aligned length \<open>q\<close> minus the clipped sum is less than
  \<open>round(threshold_fraction * q)\<close>, and it returns the empty reason when the read
  passes. The product is the binary64 product and \<open>round\<close> rounds halfway cases away
  from zero; when the product overflows to an infinity the comparison is with that
  infinity, and with a NaN it is false.
\<close>

theorem filterRead_bad_align_iff:
  assumes "decodeGraphAlignment (graph_pos r) (graph_cigar r) (graph f) = mapping"
    and "sum_list (map numClipped (alignments mapping)) \<le> queryLength mapping"
    and "queryLength mapping < 2 ^ 53"
  shows "filterRead decodeGraphAlignment f r =
     (let query_aligned = queryLength mapping - sum_list (map numClipped (alignments mapping));
          is_bad =
            (case dmul (bad_align_frac f) (double_of_nat (queryLength mapping)) of
               Fin m e \<Rightarrow> int query_aligned < round_half_away (dval (Fin m e))
             | PInf \<Rightarrow> True
             | NInf \<Rightarrow> False
             | NaN \<Rightarrow> False)
      in (is_bad, if is_bad then ''bad_align'' else ''''))"
proof -
  define q where "q = queryLength mapping"
  define c where "c = sum_list (map numClipped (alignments mapping))"
  define p where "p = dmul (bad_align_frac f) (double_of_nat q)"
  have q64: "q < size_t_range"
    using assms(3) by (simp add: size_t_range_def q_def)
  have cq: "c \<le> q"
    using assms(2) by (simp add: q_def c_def)
  have "sum_list (map numClipped (alignments mapping)) < size_t_range"
    using cq q64 by (simp add: c_def)
  then have sc: "sum_clipped (alignments mapping) = c"
    unfolding c_def by (rule sum_clipped_eq)
  have al: "(q + size_t_range - c) mod size_t_range = q - c"
    using cq q64 by (rule query_aligned_eq)
  have a53: "q - c < 2 ^ 53"
    using assms(3) by (simp add: q_def)
  have unfold: "filterRead decodeGraphAlignment f r =
      (dless (double_of_nat (q - c)) (c_round p),
       if dless (double_of_nat (q - c)) (c_round p) then ''bad_align'' else '''')"
    unfolding filterRead_def Let_def assms(1) sc q_def [symmetric] al p_def ..
  have fin: "double_of_nat (q - c) = Fin (int (q - c)) 0"
    by (rule double_of_nat_exact [OF a53])
  have "dless (double_of_nat (q - c)) (c_round p) =
      (case p of Fin m e \<Rightarrow> int (q - c) < round_half_away (dval (Fin m e))
       | PInf \<Rightarrow> True | NInf \<Rightarrow> False | NaN \<Rightarrow> False)"
  proof (cases p)
    case (Fin m e)
    then show ?thesis
      using dless_nat_c_round [OF a53, of m e] by (simp del: dval.simps c_round.simps)
  next
    case PInf
    then show ?thesis by (simp add: fin)
  next
    case NInf
    then show ?thesis by (simp add: fin)
  next
    case NaN
    then show ?thesis by (simp add: fin)
  qed
  with unfold show ?thesis
    unfolding Let_def p_def q_def c_def by (simp only:)
qed

text \<open>
  The boundary case: with the threshold fraction 0.8 and a query of length 5 the
  product is 4 exactly, the threshold count is 4, a read with aligned length 4 passes
  and a read with aligned length 3 is excluded.
\<close>

lemma threshold_0_8_5: "dmul double_0_8 (double_of_nat 5) = Fin 4503599627370496 (- 50)"
  by (simp add: double_0_8_def double_of_nat_def round64_def round_even_def bitlen_nat_eval)

lemma round_threshold_0_8_5: "round_half_away (dval (Fin 4503599627370496 (- 50))) = 4"
proof -
  have "dval (Fin 4503599627370496 (- 50)) = of_int 4"
    by (simp add: pow2_def)
  then show ?thesis
    by (simp only: round_half_away_of_int)
qed

theorem filterRead_bad_align_iff_witness:
  "filterRead (\<lambda>pos cigar g. example_mapping 1) example_filter example_read = (False, '''') \<and>
   filterRead (\<lambda>pos cigar g. example_mapping 2) example_filter example_read = (True, ''bad_align'')"
proof -
  have "filterRead (\<lambda>pos cigar g. example_mapping 1) example_filter example_read = (False, '''')"
    using filterRead_bad_align_iff [of "\<lambda>pos cigar g. example_mapping 1" example_read example_filter "example_mapping 1"]
    by (simp add: example_mapping_def example_filter_def threshold_0_8_5 round_threshold_0_8_5 del: dval.simps)
  moreover have "filterRead (\<lambda>pos cigar g. example_mapping 2) example_filter example_read = (True, ''bad_align'')"
    using filterRead_bad_align_iff [of "\<lambda>pos cigar g. example_mapping 2" example_read example_filter "example_mapping 2"]
    by (simp add: example_mapping_def example_filter_def threshold_0_8_5 round_threshold_0_8_5 del: dval.simps)
  ultimately show ?thesis by simp
qed

text \<open>
  Claim C2, as amended. The constructor of the bad-alignment filter fails exactly when
  the graph pointer is null (an assertion); it stores the threshold fraction as it is
  given and checks no range.
\<close>

theorem BadAlign_new_unchecked_fraction:
  "BadAlign_new g fraction =
     (case g of None \<Rightarrow> Inl AssertionFailed
      | Some x \<Rightarrow> Inr \<lparr>graph = Some x, bad_align_frac = fraction\<rparr>)"
  by (simp add: BadAlign_new_def split: option.split)

theorem BadAlign_new_unchecked_fraction_witness:
  "BadAlign_new (None :: unit option) double_0_8 = Inl AssertionFailed \<and>
   BadAlign_new (Some ()) NaN = Inr \<lparr>graph = Some (), bad_align_frac = NaN\<rparr>"
  using BadAlign_new_unchecked_fraction [of "None :: unit option" double_0_8]
    BadAlign_new_unchecked_fraction [of "Some ()" NaN]
  by simp

text \<open>
  Claim C2 as stated fails: the constructor accepts the threshold fraction 3/2, which
  lies outside the interval from 0 to 1.
\<close>

theorem BadAlign_new_fraction_range_counterexample:
  "BadAlign_new (Some ()) (Fin 3 (- 1)) = Inr \<lparr>graph = Some (), bad_align_frac = Fin 3 (- 1)\<rparr> \<and>
   dval (Fin 3 (- 1)) = 3 / 2 \<and> \<not> dval (Fin 3 (- 1)) \<le> 1"
  by (simp add: BadAlign_new_def pow2_def)

section \<open>The aligner\<close>

lemma better_keeps:
  "b = Some y \<Longrightarrow> \<exists>x. better b c = Some x \<and> score y \<le> score x"
  by (auto simp: better_def split: option.splits)

lemma better_takes:
  "\<exists>x. better b (Some y) = Some x \<and> score y \<le> score x"
  by (auto simp: better_def split: option.splits)

lemma foldl_better_keeps:
  "b = Some y \<Longrightarrow> \<exists>x. foldl better b cs = Some x \<and> score y \<le> score x"
proof (induction cs arbitrary: b y)
  case Nil
  then show ?case by simp
next
  case (Cons c cs)
  from better_keeps [OF Cons.prems] obtain z where z: "better b c = Some z" "score y \<le> score z"
    by blast
  from Cons.IH [OF z(1)] obtain x where "foldl better (better b c) cs = Some x" "score z \<le> score x"
    by blast
  with z(2) show ?case by auto
qed

lemma foldl_better_dominates:
  "Some y \<in> set cs \<Longrightarrow> \<exists>x. foldl better b cs = Some x \<and> score y \<le> score x"
proof (induction cs arbitrary: b)
  case Nil
  then show ?case by simp
next
  case (Cons c cs)
  show ?case
  proof (cases "c = Some y")
    case True
    from better_takes obtain z where z: "better b (Some y) = Some z" "score y \<le> score z"
      by blast
    from foldl_better_keeps [OF z(1)] obtain x
      where "foldl better (better b (Some y)) cs = Some x" "score z \<le> score x"
      by blast
    with z(2) True show ?thesis by auto
  next
    case False
    with Cons.prems have "Some y \<in> set cs" by simp
    from Cons.IH [OF this] show ?thesis by simp
  qed
qed

lemma align_orientation_dominates:
  assumes "p \<in> set ps" and "klib p sq = Some c"
  shows "\<exists>b. align_orientation klib ps sq = Some b \<and> score c \<le> score b"
proof -
  from assms have "Some c \<in> set (map (\<lambda>p. klib p sq) ps)"
    by (metis (mono_tags, lifting) image_eqI set_map)
  then show ?thesis
    unfolding align_orientation_def by (rule foldl_better_dominates)
qed

text \<open>
  Claim C7. \<open>alignRead\<close> aligns the read and its reverse complement against every
  configured path: the candidate of an orientation scores at least as high as the
  alignment of that orientation against any path. The result written to the read is
  the candidate of the only orientation that maps; with both mapped, the candidate
  with the higher score, and the forward candidate when the scores are equal; with
  neither mapped, the read is marked unmapped and its graph position and graph CIGAR
  are not written.
\<close>

theorem alignRead_selection:
  "let fwd = align_orientation klib (paths a) (bases r);
       rv = align_orientation klib (paths a) (reverse_complement (bases r));
       written = (\<lambda>c. r\<lparr>graph_pos := pos c, graph_cigar := cigar c, is_graph_mapped := True\<rparr>);
       result = snd (alignRead klib a r)
   in (\<forall>p \<in> set (paths a). \<forall>c. klib p (bases r) = Some c \<longrightarrow>
          (\<exists>b. fwd = Some b \<and> score c \<le> score b)) \<and>
      (\<forall>p \<in> set (paths a). \<forall>c. klib p (reverse_complement (bases r)) = Some c \<longrightarrow>
          (\<exists>b. rv = Some b \<and> score c \<le> score b)) \<and>
      (\<forall>f. fwd = Some f \<and> rv = None \<longrightarrow> result = written f) \<and>
      (\<forall>v. fwd = None \<and> rv = Some v \<longrightarrow> result = written v) \<and>
      (\<forall>f v. fwd = Some f \<and> rv = Some v \<and> score f < score v \<longrightarrow> result = written v) \<and>
      (\<forall>f v. fwd = Some f \<and> rv = Some v \<and> score v < score f \<longrightarrow> result = written f) \<and>
      (\<forall>f v. fwd = Some f \<and> rv = Some v \<and> score v = score f \<longrightarrow> result = written f) \<and>
      (fwd = None \<and> rv = None \<longrightarrow>
         result = r\<lparr>is_graph_mapped := False\<rparr> \<and>
         graph_pos result = graph_pos r \<and> graph_cigar result = graph_cigar r)"
proof -
  have dom: "\<forall>p \<in> set (paths a). \<forall>c. klib p sq = Some c \<longrightarrow>
          (\<exists>b. align_orientation klib (paths a) sq = Some b \<and> score c \<le> score b)" for sq
    using align_orientation_dominates by fast
  show ?thesis
    unfolding Let_def
    apply (intro conjI)
           apply (rule dom)
          apply (rule dom)
         apply (simp_all add: alignRead_def select_orientation_def Let_def)
    done
qed

lemma example_rc:
  "reverse_complement (bases example_read) = ''TACGT''"
  "reverse_complement (bases (example_read\<lparr>bases := ''NNNNN''\<rparr>)) = ''NNNNN''"
  by (simp_all add: reverse_complement_def example_read_def)

lemma example_fwd:
  "align_orientation example_klib (paths example_aligner) (bases example_read) =
     Some \<lparr>score = 5, pos = 10, cigar = ''0[5M]''\<rparr>"
  by (simp add: align_orientation_def better_def example_klib_def example_aligner_def example_read_def)

lemma example_rv:
  "align_orientation example_klib (paths example_aligner) ''TACGT'' =
     Some \<lparr>score = 5, pos = 20, cigar = ''1[5M]''\<rparr>"
  by (simp add: align_orientation_def better_def example_klib_def example_aligner_def)

lemma example_none:
  "align_orientation example_klib (paths example_aligner) (bases (example_read\<lparr>bases := ''NNNNN''\<rparr>)) = None"
  "align_orientation example_klib (paths example_aligner) ''NNNNN'' = None"
  by (simp_all add: align_orientation_def better_def example_klib_def example_aligner_def)

theorem alignRead_selection_witness:
  "snd (alignRead example_klib example_aligner example_read) =
     example_read\<lparr>graph_pos := 10, graph_cigar := ''0[5M]'', is_graph_mapped := True\<rparr> \<and>
   snd (alignRead example_klib example_aligner (example_read\<lparr>bases := ''NNNNN''\<rparr>)) =
     example_read\<lparr>bases := ''NNNNN'', is_graph_mapped := False\<rparr>"
proof -
  have "snd (alignRead example_klib example_aligner example_read) =
     example_read\<lparr>graph_pos := 10, graph_cigar := ''0[5M]'', is_graph_mapped := True\<rparr>"
    using alignRead_selection [of example_klib example_aligner example_read]
    by (simp only: Let_def example_rc example_fwd example_rv) simp
  moreover have "snd (alignRead example_klib example_aligner (example_read\<lparr>bases := ''NNNNN''\<rparr>)) =
     example_read\<lparr>bases := ''NNNNN'', is_graph_mapped := False\<rparr>"
    using alignRead_selection [of example_klib example_aligner "example_read\<lparr>bases := ''NNNNN''\<rparr>"]
    by (simp only: Let_def example_rc example_none simp_thms)
  ultimately show ?thesis by simp
qed

section \<open>\<open>processGraph\<close> and the \<open>bam\<close> member\<close>

lemma map_of_update_other: "k \<noteq> key \<Longrightarrow> map_of (AList.update key v ms) k = map_of ms k"
  by (simp add: update_conv')

lemma map_of_update_same: "map_of (AList.update key v ms) key = Some v"
  by (simp add: update_conv')

lemma appendPaths_object:
  assumes "map_of ms ''bam'' = Some (JArray xs)"
  shows "\<exists>ms'. appendPaths ps (JObject ms) = Inr (JObject ms') \<and>
           map_of ms' ''bam'' = Some (JArray (xs @ map JString ps)) \<and>
           (\<forall>k. k \<noteq> ''bam'' \<longrightarrow> map_of ms' k = map_of ms k)"
  using assms
proof (induction ps arbitrary: ms xs)
  case Nil
  then show ?case by simp
next
  case (Cons p ps)
  let ?ms = "AList.update ''bam'' (JArray (xs @ [JString p])) ms"
  have step: "json_append ''bam'' (JString p) (JObject ms) = Inr (JObject ?ms)"
    using Cons.prems by (simp add: json_append_def)
  have "map_of ?ms ''bam'' = Some (JArray (xs @ [JString p]))"
    by (rule map_of_update_same)
  from Cons.IH [OF this] obtain ms' where ms':
    "appendPaths ps (JObject ?ms) = Inr (JObject ms')"
    "map_of ms' ''bam'' = Some (JArray ((xs @ [JString p]) @ map JString ps))"
    "\<forall>k. k \<noteq> ''bam'' \<longrightarrow> map_of ms' k = map_of ?ms k"
    by blast
  have "\<forall>k. k \<noteq> ''bam'' \<longrightarrow> map_of ms' k = map_of ms k"
    using ms'(3) by (simp add: map_of_update_other)
  with ms'(1,2) step show ?case by simp
qed

lemma set_bam_result:
  assumes "set_bam input_paths outputJson = Inr j"
  shows "\<exists>ms. j = JObject ms \<and>
           map_of ms ''bam'' =
             Some (if length input_paths = 1 then JString (hd input_paths)
                   else JArray (map JString input_paths)) \<and>
           (\<forall>k. k \<noteq> ''bam'' \<longrightarrow> map_of ms k = map_of (members outputJson) k)"
proof (cases "length input_paths = 1")
  case True
  with assms show ?thesis
    by (auto simp: set_bam_def json_assign_def members_def map_of_update_other map_of_update_same
        split: json.splits)
next
  case False
  from assms False obtain j0 where j0: "json_assign ''bam'' (JArray []) outputJson = Inr j0"
    and app: "appendPaths input_paths j0 = Inr j"
    by (auto simp: set_bam_def split: sum.splits)
  from j0 obtain ms0 where ms0: "j0 = JObject ms0" "map_of ms0 ''bam'' = Some (JArray [])"
    "\<forall>k. k \<noteq> ''bam'' \<longrightarrow> map_of ms0 k = map_of (members outputJson) k"
    by (auto simp: json_assign_def members_def map_of_update_other map_of_update_same
        split: json.splits)
  from appendPaths_object [OF ms0(2), of input_paths] app ms0(1,3) False
  show ?thesis by auto
qed

text \<open>
  Claim C9. When \<open>processGraph\<close> returns the output of a unit, that output is the
  serialisation of the result of the disambiguator with the member \<open>bam\<close> set: to the
  read-source path as a string when the unit has exactly one read-source path, and to
  the list of the unit's read-source paths, in input order, otherwise. Every other member is
  as the disambiguator returned it.
\<close>

theorem processGraph_bam:
  assumes "processGraph X graphSpecPath params input_paths readers = Inr output"
  shows "\<exists>allReads outputJson ms.
           extractAll X params readers [] = Some allReads \<and>
           alignAndDisambiguate X params allReads = Some outputJson \<and>
           output = writeJson X (JObject ms) \<and>
           map_of ms ''bam'' =
             Some (if length input_paths = 1 then JString (hd input_paths)
                   else JArray (map JString input_paths)) \<and>
           (\<forall>k. k \<noteq> ''bam'' \<longrightarrow> map_of ms k = map_of (members outputJson) k)"
proof -
  from assms obtain allReads outputJson j where
    a: "extractAll X params readers [] = Some allReads"
    and b: "alignAndDisambiguate X params allReads = Some outputJson"
    and c: "set_bam input_paths outputJson = Inr j"
    and d: "output = writeJson X j"
    by (auto simp: processGraph_def split: option.splits sum.splits)
  from set_bam_result [OF c] a b d show ?thesis by blast
qed

lemma example_processGraph:
  "processGraph example_externals ''g.json'' ''g.json'' [''a.bam''] [] = Inr ''{g.json:a.bam}''"
  "processGraph example_externals ''g.json'' ''g.json'' [''a.bam'', ''b.bam''] [] = Inr ''{g.json:[a.bam;b.bam;]}''"
  by code_simp+

theorem processGraph_bam_witness:
  "(\<exists>ms. ''{g.json:a.bam}'' = writeJson example_externals (JObject ms) \<and>
         map_of ms ''bam'' = Some (JString ''a.bam'')) \<and>
   (\<exists>ms. ''{g.json:[a.bam;b.bam;]}'' = writeJson example_externals (JObject ms) \<and>
         map_of ms ''bam'' = Some (JArray [JString ''a.bam'', JString ''b.bam'']))"
  using processGraph_bam [OF example_processGraph(1)] processGraph_bam [OF example_processGraph(2)]
  by auto

section \<open>The per-unit output file\<close>

lemma dumpOutput_accepts:
  "\<not> failed os \<Longrightarrow> sinkAccepts X (sinkName os) output \<Longrightarrow>
   dumpOutput X output os file = (os\<lparr>buffer := buffer os @ output\<rparr>, None)"
  by (simp add: dumpOutput_def os_write_def)

lemma dumpOutput_rejects:
  "\<not> failed os \<Longrightarrow> \<not> sinkAccepts X (sinkName os) output \<Longrightarrow>
   dumpOutput X output os file =
     (os\<lparr>failed := True\<rparr>, Some (Error (write_error_message file (sysError X file))))"
  by (simp add: dumpOutput_def os_write_def)

text \<open>
  Claim C10. With a folder for the per-unit files configured, the file of a unit is
  the folder joined with the file name of the unit's graph-specification path, with
  \<open>.gz\<close> appended exactly when gzip compression is on; two graph-specification paths with
  the same file name have the same output file. When the file cannot be opened,
  the error raised carries the path and the text of the system error, and so does the
  error raised when the write fails.
\<close>

theorem writeUnitFile_path:
  assumes "folder \<noteq> ''''"
  shows "let outputPath = pathAppend X folder (pathFilename X graphSpecPath) @ (if gz then ''.gz'' else '''')
   in (\<not> fileOpens X outputPath \<longrightarrow>
         writeUnitFile X folder gz fs output graphSpecPath =
           (fs, Some (Error (''ERROR: Failed to open output file '' @ quoted outputPath
                             @ ''. Error: '' @ quoted (sysError X outputPath))))) \<and>
      (fileOpens X outputPath \<and> sinkAccepts X outputPath output \<longrightarrow>
         writeUnitFile X folder gz fs output graphSpecPath =
           (fs(outputPath \<mapsto> (if gz then gzip X output else output)), None)) \<and>
      (fileOpens X outputPath \<and> \<not> sinkAccepts X outputPath output \<longrightarrow>
         writeUnitFile X folder gz fs output graphSpecPath =
           (fs(outputPath \<mapsto> (if gz then gzip X '''' else '''')),
            Some (Error (''ERROR: Failed to write output to '' @ quoted outputPath
                         @ '' error: '' @ quoted (sysError X outputPath))))) \<and>
      (\<forall>other. pathFilename X other = pathFilename X graphSpecPath \<longrightarrow>
         outputPathOf X folder gz other = outputPath)"
  using assms
  by (simp add: writeUnitFile_def makeOutputFile_def outputPathOf_def Let_def
      dumpOutput_accepts dumpOutput_rejects open_error_message_def write_error_message_def)

theorem writeUnitFile_path_witness:
  "writeUnitFile example_externals ''dir'' True Map.empty ''{}'' ''x/g1.json'' =
     ([''dir/g1.json.gz'' \<mapsto> ''gzip:{}''], None) \<and>
   writeUnitFile example_externals ''nodir'' False Map.empty ''{}'' ''x/g1.json'' =
     (Map.empty, Some (Error (''ERROR: Failed to open output file '' @ quoted ''nodir/g1.json''
                             @ ''. Error: '' @ quoted ''No such file or directory''))) \<and>
   outputPathOf example_externals ''dir'' True ''y/g1.json'' = ''dir/g1.json.gz''"
proof -
  have fn: "pathFilename example_externals ''x/g1.json'' = ''g1.json''"
    "pathFilename example_externals ''y/g1.json'' = ''g1.json''"
    by (simp_all add: example_externals_def posix_filename_def)
  have ex: "pathAppend example_externals ''dir'' ''g1.json'' = ''dir/g1.json''"
    "pathAppend example_externals ''nodir'' ''g1.json'' = ''nodir/g1.json''"
    "fileOpens example_externals ''dir/g1.json.gz''"
    "\<not> fileOpens example_externals ''nodir/g1.json''"
    "sinkAccepts example_externals ''dir/g1.json.gz'' ''{}''"
    "gzip example_externals ''{}'' = ''gzip:{}''"
    "sysError example_externals ''nodir/g1.json'' = ''No such file or directory''"
    by (simp_all add: example_externals_def)
  show ?thesis
    using writeUnitFile_path [of "''dir''" example_externals "''x/g1.json''" True Map.empty "''{}''"]
      writeUnitFile_path [of "''nodir''" example_externals "''x/g1.json''" False Map.empty "''{}''"]
    by (simp add: Let_def fn ex)
qed

section \<open>Steps of the scheduler\<close>

lemma goto_simps [simp]:
  "threads (goto t p s) = (threads s)[t := p]"
  "mutex (goto t p s) = mutex s"
  "trace (goto t p s) = trace s"
  "terminate (goto t p s) = terminate s"
  "firstPrinted (goto t p s) = firstPrinted s"
  "unprocessedInputs (goto t p s) = unprocessedInputs s"
  "graphSpecPaths (goto t p s) = graphSpecPaths s"
  "outputFilePath (goto t p s) = outputFilePath s"
  "outputFolderPath (goto t p s) = outputFolderPath s"
  "gzipOutput (goto t p s) = gzipOutput s"
  "parameters (goto t p s) = parameters s"
  "referencePath (goto t p s) = referencePath s"
  "targetRegions (goto t p s) = targetRegions s"
  "outputFileStream (goto t p s) = outputFileStream s"
  "files (goto t p s) = files s"
  by (simp_all add: goto_def)

lemma record_action_simps [simp]:
  "threads (record_action t a s) = threads s"
  "mutex (record_action t a s) = mutex s"
  "trace (record_action t a s) = trace s @ [(t, mutex s = Some t, a)]"
  "terminate (record_action t a s) = terminate s"
  "firstPrinted (record_action t a s) = firstPrinted s"
  "unprocessedInputs (record_action t a s) = unprocessedInputs s"
  "graphSpecPaths (record_action t a s) = graphSpecPaths s"
  "outputFilePath (record_action t a s) = outputFilePath s"
  "outputFolderPath (record_action t a s) = outputFolderPath s"
  "gzipOutput (record_action t a s) = gzipOutput s"
  "parameters (record_action t a s) = parameters s"
  "referencePath (record_action t a s) = referencePath s"
  "targetRegions (record_action t a s) = targetRegions s"
  "outputFileStream (record_action t a s) = outputFileStream s"
  "files (record_action t a s) = files s"
  by (simp_all add: record_action_def)

lemma step_SomeD:
  "step X t s = Some s' \<Longrightarrow> t < length (threads s) \<and> thread_step X t (threads s ! t) s = Some s'"
  by (simp add: step_def split: if_splits)

lemma map_update_same:
  "(\<And>x. f (h x) = f x) \<Longrightarrow> map f (xs[i := h (xs ! i)]) = map f xs"
  by (induction xs arbitrary: i) (auto split: nat.splits)

lemma step_config:
  assumes "step X t s = Some s'"
  shows "config s' = config s"
proof -
  from step_SomeD [OF assms] have ts: "thread_step X t (threads s ! t) s = Some s'" by simp
  have upd: "map inputPaths ((unprocessedInputs s)[i := (unprocessedInputs s ! i)\<lparr>unprocessedGraphs := k\<rparr>])
      = map inputPaths (unprocessedInputs s)"
    "map inputIndexPaths ((unprocessedInputs s)[i := (unprocessedInputs s ! i)\<lparr>unprocessedGraphs := k\<rparr>])
      = map inputIndexPaths (unprocessedInputs s)" for i k
    by (rule map_update_same, simp)+
  from ts show ?thesis
    by (cases "threads s ! t")
      (auto simp: config_def Let_def upd split: if_splits option.splits sum.splits prod.splits)
qed

lemma config_fields:
  assumes "config s' = config s"
  shows "graphSpecPaths s' = graphSpecPaths s" "outputFilePath s' = outputFilePath s"
    "outputFolderPath s' = outputFolderPath s" "gzipOutput s' = gzipOutput s"
    "parameters s' = parameters s" "referencePath s' = referencePath s"
    "targetRegions s' = targetRegions s"
    "length (unprocessedInputs s') = length (unprocessedInputs s)"
    "length (threads s') = length (threads s)"
    "map inputPaths (unprocessedInputs s') = map inputPaths (unprocessedInputs s)"
    "map inputIndexPaths (unprocessedInputs s') = map inputIndexPaths (unprocessedInputs s)"
  using assms by (auto simp: config_def dest: map_eq_imp_length_eq)



subsection \<open>The mutex\<close>

lemma step_lock_inv:
  assumes "step X t s = Some s'" and "lock_inv s"
  shows "lock_inv s'"
proof -
  from step_SomeD [OF assms(1)] have t: "t < length (threads s)"
    and ts: "thread_step X t (threads s ! t) s = Some s'" by simp_all
  from assms(2) t have own: "holds_lock (threads s ! t) \<longleftrightarrow> mutex s = Some t"
    by (simp add: lock_inv_def)
  from assms(2) have inv: "\<And>u. u < length (threads s) \<Longrightarrow> holds_lock (threads s ! u) \<longleftrightarrow> mutex s = Some u"
    and bound: "\<And>u. mutex s = Some u \<Longrightarrow> u < length (threads s)"
    by (auto simp: lock_inv_def)
  from ts own t inv bound show ?thesis
    by (cases "threads s ! t")
      (auto simp: lock_inv_def nth_list_update Let_def
        split: if_splits option.splits sum.splits prod.splits)
qed

lemma step_trace_inv:
  assumes "step X t s = Some s'" and "lock_inv s" and "trace_inv s"
  shows "trace_inv s'"
proof -
  from step_SomeD [OF assms(1)] have t: "t < length (threads s)"
    and ts: "thread_step X t (threads s ! t) s = Some s'" by simp_all
  from assms(2) t have own: "holds_lock (threads s ! t) \<longleftrightarrow> mutex s = Some t"
    by (simp add: lock_inv_def)
  from ts own assms(3) show ?thesis
    by (cases "threads s ! t")
      (auto simp: trace_inv_def Let_def
        split: if_splits option.splits sum.splits prod.splits)
qed

lemma start_simps [simp]:
  "threads (start w n fos) = replicate n (ForHead 0)"
  "mutex (start w n fos) = mutex w"
  "trace (start w n fos) = []"
  "terminate (start w n fos) = terminate w"
  "firstPrinted (start w n fos) = firstPrinted w"
  "unprocessedInputs (start w n fos) = unprocessedInputs w"
  "graphSpecPaths (start w n fos) = graphSpecPaths w"
  "outputFilePath (start w n fos) = outputFilePath w"
  "outputFolderPath (start w n fos) = outputFolderPath w"
  "gzipOutput (start w n fos) = gzipOutput w"
  "parameters (start w n fos) = parameters w"
  "referencePath (start w n fos) = referencePath w"
  "targetRegions (start w n fos) = targetRegions w"
  "outputFileStream (start w n fos) = fos"
  "files (start w n fos) = Map.empty"
  by (simp_all add: start_def Workflow.defs system.defs)

lemma exec_lock_trace_inv:
  "lock_inv s \<Longrightarrow> trace_inv s \<Longrightarrow> lock_inv (exec X sched s) \<and> trace_inv (exec X sched s)"
proof (induction sched arbitrary: s)
  case Nil
  then show ?case by simp
next
  case (Cons t sched)
  show ?case
  proof (cases "step X t s")
    case None
    with Cons show ?thesis by simp
  next
    case (Some s')
    with Cons.prems have "lock_inv s'" "trace_inv s'"
      by (auto intro: step_lock_inv step_trace_inv)
    with Cons.IH Some show ?thesis by simp
  qed
qed

lemma start_lock_inv: "mutex w = None \<Longrightarrow> lock_inv (start w n fos)"
  by (simp add: lock_inv_def)

lemma start_trace_inv: "trace_inv (start w n fos)"
  by (simp add: trace_inv_def)

text \<open>
  Claim C8, as amended. In every run of the workers, whatever the schedule, each worker
  claims a path, opens the read-source handles and writes to the aggregated stream
  only while it owns the mutex, and it loads the parameters, processes the graph and
  writes the per-unit output file only while it does not own it: the per-unit file is
  written in the expensive stage, before the lock is taken again. The mutex is owned
  by exactly the worker that is inside a locked region.
\<close>

theorem lock_discipline:
  assumes "mutex w = None"
  shows "(\<forall>(t, held, a) \<in> set (trace (exec X sched (start w n fos))).
            case a of
              ClaimedPath i g \<Rightarrow> held
            | OpenedReaders i g \<Rightarrow> held
            | LoadedParameters i g \<Rightarrow> \<not> held
            | ProcessedGraph i g \<Rightarrow> \<not> held
            | WroteUnitFile i g \<Rightarrow> \<not> held
            | WroteAggregated i g output \<Rightarrow> held
            | Abandoned i g \<Rightarrow> held) \<and>
         (\<forall>t < n. holds_lock (threads (exec X sched (start w n fos)) ! t) \<longleftrightarrow>
            mutex (exec X sched (start w n fos)) = Some t)"
proof -
  let ?s = "exec X sched (start w n fos)"
  from exec_lock_trace_inv [OF start_lock_inv [OF assms] start_trace_inv]
  have l: "lock_inv ?s" and tr: "trace_inv ?s" by blast+
  have len: "length (threads (exec X sch s)) = length (threads s)" for sch and s :: "'a system"
  proof (induction sch arbitrary: s)
    case Nil
    show ?case by simp
  next
    case (Cons t sch)
    show ?case
    proof (cases "step X t s")
      case None
      with Cons show ?thesis by simp
    next
      case (Some s')
      from config_fields(9) [OF step_config [OF Some]] Cons [of s'] Some show ?thesis by simp
    qed
  qed
  have "length (threads ?s) = n" by (simp add: len)
  with l have "\<forall>t < n. holds_lock (threads ?s ! t) \<longleftrightarrow> mutex ?s = Some t"
    by (simp add: lock_inv_def)
  moreover from tr have "\<forall>(t, held, a) \<in> set (trace ?s).
            case a of
              ClaimedPath i g \<Rightarrow> held
            | OpenedReaders i g \<Rightarrow> held
            | LoadedParameters i g \<Rightarrow> \<not> held
            | ProcessedGraph i g \<Rightarrow> \<not> held
            | WroteUnitFile i g \<Rightarrow> \<not> held
            | WroteAggregated i g output \<Rightarrow> held
            | Abandoned i g \<Rightarrow> held"
    by (auto simp: trace_inv_def list_all_iff split: action.splits)
  ultimately show ?thesis by blast
qed

lemma file_written_unlocked_eval:
  "trace file_written_unlocked =
     [(0, True, ClaimedPath 0 0), (0, True, OpenedReaders 0 0), (0, False, LoadedParameters 0 0),
      (0, False, ProcessedGraph 0 0), (0, False, WroteUnitFile 0 0)]"
  "mutex file_written_unlocked = Some 1"
  "files file_written_unlocked ''dir/g1.json'' = Some ''{x/g1.json:a.bam}''"
  by code_simp+

theorem lock_discipline_witness:
  "(0, False, WroteUnitFile 0 0) \<in> set (trace file_written_unlocked) \<and>
   \<not> holds_lock (threads file_written_unlocked ! 0) \<and>
   holds_lock (threads file_written_unlocked ! 1)"
proof -
  have m: "mutex one_input_two_graphs = None"
    by (simp add: one_input_two_graphs_def)
  note d = lock_discipline [OF m, of example_externals "[0, 0, 0, 0, 0, 1, 0]" 2 example_stream,
      folded file_written_unlocked_def]
  from d have own: "\<forall>t < 2. holds_lock (threads file_written_unlocked ! t) \<longleftrightarrow>
      mutex file_written_unlocked = Some t"
    by blast
  from own have "holds_lock (threads file_written_unlocked ! 1)"
    by (simp add: file_written_unlocked_eval)
  moreover from own have "\<not> holds_lock (threads file_written_unlocked ! 0)"
    by (simp add: file_written_unlocked_eval)
  moreover have "(0, False, WroteUnitFile 0 0) \<in> set (trace file_written_unlocked)"
    by (simp add: file_written_unlocked_eval)
  ultimately show ?thesis by blast
qed

text \<open>
  Claim C8 as stated fails for the per-unit file: in the run below the first worker
  writes its file \<open>dir/g1.json\<close> without owning the mutex, which the second worker
  owns at that moment.
\<close>

theorem unit_file_written_without_lock_counterexample:
  "(0, False, WroteUnitFile 0 0) \<in> set (trace file_written_unlocked) \<and>
   mutex file_written_unlocked = Some 1 \<and>
   files file_written_unlocked ''dir/g1.json'' = Some ''{x/g1.json:a.bam}''"
  by (simp add: file_written_unlocked_eval)

subsection \<open>Claims\<close>

lemma map_filter_snoc:
  "List.map_filter f (xs @ [x]) = List.map_filter f xs @ (case f x of None \<Rightarrow> [] | Some y \<Rightarrow> [y])"
  by (simp add: List.map_filter_def split: option.splits)

lemma map_filter_append:
  "List.map_filter f (xs @ ys) = List.map_filter f xs @ List.map_filter f ys"
  by (simp add: List.map_filter_def)

lemma claims_simps [simp]:
  "claims i [] = []"
  "claims i (tr @ tr') = claims i tr @ claims i tr'"
  "claims i ((t, held, a) # tr) =
     (case a of ClaimedPath i' g \<Rightarrow> if i' = i then [g] else [] | _ \<Rightarrow> []) @ claims i tr"
  by (simp_all add: claims_def map_filter_append split: action.splits)

lemma claimed_units_simps [simp]:
  "claimed_units [] = []"
  "claimed_units (tr @ tr') = claimed_units tr @ claimed_units tr'"
  "claimed_units ((t, held, a) # tr) =
     (case a of ClaimedPath i g \<Rightarrow> [(i, g)] | _ \<Rightarrow> []) @ claimed_units tr"
  by (simp_all add: claimed_units_def map_filter_append split: action.splits)

lemma emitted_simps [simp]:
  "emitted [] = []"
  "emitted (tr @ tr') = emitted tr @ emitted tr'"
  "emitted ((t, held, a) # tr) =
     (case a of WroteAggregated i g output \<Rightarrow> [((i, g), output)] | _ \<Rightarrow> []) @ emitted tr"
  by (simp_all add: emitted_def map_filter_append split: action.splits)

lemma step_claim_inv:
  assumes "step X t s = Some s'" and "claim_inv s"
  shows "claim_inv s'"
proof -
  from step_SomeD [OF assms(1)] have t: "t < length (threads s)"
    and ts: "thread_step X t (threads s ! t) s = Some s'" by simp_all
  let ?m = "length (unprocessedInputs s)" and ?n = "length (graphSpecPaths s)"
  from assms(2) t have ok: "pc_ok ?m ?n (threads s ! t)"
    by (simp add: claim_inv_def)
  from assms(2) have oks: "\<And>u. u < length (threads s) \<Longrightarrow> pc_ok ?m ?n (threads s ! u)"
    and cl: "\<And>i. i < ?m \<Longrightarrow> claims i (trace s) = [0 ..< cursor s i] \<and> cursor s i \<le> ?n"
    and un: "\<And>u. u \<in> set (claimed_units (trace s)) \<Longrightarrow> fst u < ?m"
    by (auto simp: claim_inv_def)
  show ?thesis
  proof (cases "threads s ! t")
    case (WhileHead i)
    with ok have i: "i < ?m" by simp
    from cl [OF i] have ci: "claims i (trace s) = [0 ..< cursor s i]" "cursor s i \<le> ?n" by simp_all
    show ?thesis
    proof (cases "?n = cursor s i")
      case True
      with ts WhileHead t oks cl un i show ?thesis
        by (auto simp: claim_inv_def cursor_def Let_def nth_list_update)
    next
      case False
      with ci have lt: "cursor s i < ?n" by simp
      from ts WhileHead False have s': "s' = goto t (OpenReaders i (cursor s i))
          (record_action t (ClaimedPath i (cursor s i))
            (s\<lparr>unprocessedInputs := (unprocessedInputs s)
                 [i := (unprocessedInputs s ! i)\<lparr>unprocessedGraphs := cursor s i + 1\<rparr>]\<rparr>))"
        by (simp add: Let_def cursor_def)
      have a: "\<forall>u < length (threads s'). pc_ok (length (unprocessedInputs s')) (length (graphSpecPaths s')) (threads s' ! u)"
        using oks i lt t by (auto simp: s' nth_list_update)
      have b: "\<forall>j < length (unprocessedInputs s').
          claims j (trace s') = [0 ..< cursor s' j] \<and> cursor s' j \<le> length (graphSpecPaths s')"
      proof (intro allI impI)
        fix j assume "j < length (unprocessedInputs s')"
        then have j: "j < ?m" by (simp add: s')
        show "claims j (trace s') = [0 ..< cursor s' j] \<and> cursor s' j \<le> length (graphSpecPaths s')"
        proof (cases "j = i")
          case True
          with ci lt i show ?thesis by (simp add: s' cursor_def)
        next
          case False
          with cl [OF j] j show ?thesis by (simp add: s' cursor_def)
        qed
      qed
      have c: "\<forall>u \<in> set (claimed_units (trace s')). fst u < length (unprocessedInputs s')"
        using un i by (auto simp: s')
      from a b c show ?thesis unfolding claim_inv_def by blast
    qed
  qed (use ts ok t oks cl un in \<open>auto simp: claim_inv_def cursor_def Let_def nth_list_update
        split: if_splits option.splits sum.splits prod.splits\<close>)
qed

subsection \<open>Progress through the inputs\<close>

lemma step_terminate_mono:
  assumes "step X t s = Some s'" and "terminate s"
  shows "terminate s'"
proof -
  from step_SomeD [OF assms(1)] have ts: "thread_step X t (threads s ! t) s = Some s'" by simp
  with assms(2) show ?thesis
    by (cases "threads s ! t")
      (auto simp: Let_def split: if_splits option.splits sum.splits prod.splits)
qed

lemma step_exhausted:
  assumes "step X t s = Some s'" and "exhausted s i" and "claim_inv s" and "i < length (unprocessedInputs s)"
  shows "exhausted s' i"
proof -
  from step_SomeD [OF assms(1)] have t: "t < length (threads s)"
    and ts: "thread_step X t (threads s ! t) s = Some s'" by simp_all
  from assms(3) t have ok: "pc_ok (length (unprocessedInputs s)) (length (graphSpecPaths s)) (threads s ! t)"
    by (simp add: claim_inv_def)
  from ts assms(2) ok show ?thesis
    by (cases "threads s ! t")
      (auto simp: exhausted_def cursor_def Let_def nth_list_update
        split: if_splits option.splits sum.splits prod.splits)
qed

lemma step_progress_inv:
  assumes "step X t s = Some s'" and "progress_inv s" and "claim_inv s"
  shows "progress_inv s'"
proof -
  from step_SomeD [OF assms(1)] have t: "t < length (threads s)"
    and ts: "thread_step X t (threads s ! t) s = Some s'" by simp_all
  note cf = config_fields [OF step_config [OF assms(1)]]
  let ?m = "length (unprocessedInputs s)"
  have old: "exhausted s' i" if "u < length (threads s)" "i < ?m" "i < passed ?m (threads s ! u)" for u i
  proof -
    from assms(2) that have "exhausted s i" by (simp add: progress_inv_def)
    from step_exhausted [OF assms(1) this assms(3) that(2)] show ?thesis .
  qed
  have new: "exhausted s' i" if "i < ?m" "i < passed ?m (threads s' ! t)" for i
  proof (cases "i < passed ?m (threads s ! t)")
    case True
    from old [OF t that(1) True] show ?thesis .
  next
    case False
    with ts that t show ?thesis
      by (cases "threads s ! t")
        (auto simp: exhausted_def cursor_def Let_def nth_list_update less_Suc_eq
          split: if_splits option.splits sum.splits prod.splits)
  qed
  have th: "threads s' ! u = threads s ! u" if "u \<noteq> t" "u < length (threads s)" for u
    using ts that t
    by (cases "threads s ! t")
      (auto simp: Let_def nth_list_update split: if_splits option.splits sum.splits prod.splits)
  show ?thesis
    unfolding progress_inv_def cf
  proof (intro allI impI)
    fix u i assume u: "u < length (threads s)" and i: "i < ?m" and p: "i < passed ?m (threads s' ! u)"
    show "exhausted s' i"
    proof (cases "u = t")
      case True
      with new [OF i] p show ?thesis by simp
    next
      case False
      with th [OF False u] p old [OF u i] show ?thesis by simp
    qed
  qed
qed

subsection \<open>Units claimed, in progress and written\<close>

lemma step_threads:
  assumes "step X t s = Some s'"
  shows "threads s' = (threads s)[t := threads s' ! t]" and "threads s ! t \<noteq> Aborted"
    and "threads s ! t \<noteq> Finished"
proof -
  from step_SomeD [OF assms] have t: "t < length (threads s)"
    and ts: "thread_step X t (threads s ! t) s = Some s'" by simp_all
  from ts t show "threads s' = (threads s)[t := threads s' ! t]"
    by (cases "threads s ! t")
      (auto simp: Let_def split: if_splits option.splits sum.splits prod.splits)
  from ts show "threads s ! t \<noteq> Aborted" "threads s ! t \<noteq> Finished" by auto
qed

lemma step_none_aborted:
  assumes "step X t s = Some s'" and "none_aborted s'"
  shows "none_aborted s"
  unfolding none_aborted_def
proof (intro allI impI)
  fix u assume u: "u < length (threads s)"
  note th = step_threads [OF assms(1)]
  show "threads s ! u \<noteq> Aborted"
  proof (cases "u = t")
    case True
    with th(2) show ?thesis by simp
  next
    case False
    from th(1) have "length (threads s') = length (threads s)"
      by (metis length_list_update)
    with assms(2) u have "threads s' ! u \<noteq> Aborted" by (simp add: none_aborted_def)
    moreover from th(1) False have "threads s' ! u = threads s ! u"
      by (metis nth_list_update_neq)
    ultimately show ?thesis by simp
  qed
qed

lemma step_undisturbed:
  assumes "step X t s = Some s'" and "undisturbed s'"
  shows "undisturbed s"
  using assms step_none_aborted [OF assms(1)] step_terminate_mono [OF assms(1)]
  by (auto simp: undisturbed_def)

lemma sum_list_map_update:
  fixes f :: "'a \<Rightarrow> 'b::comm_monoid_add"
  shows "t < length ps \<Longrightarrow> sum_list (map f (ps[t := p])) + f (ps ! t) = sum_list (map f ps) + f p"
proof (induction ps arbitrary: t)
  case Nil
  then show ?case by simp
next
  case (Cons q ps)
  show ?case
  proof (cases t)
    case 0
    then show ?thesis by (simp add: ac_simps)
  next
    case (Suc u)
    with Cons.prems have "u < length ps" by simp
    from Cons.IH [OF this] Suc show ?thesis
      by (simp add: ac_simps)
  qed
qed

lemma step_in_progress:
  assumes "step X t s = Some s'"
  shows "in_progress s' + unit_of (threads s ! t) = in_progress s + unit_of (threads s' ! t)"
proof -
  from step_SomeD [OF assms] have t: "t < length (threads s)" by simp
  from step_threads(1) [OF assms] have "in_progress s' = sum_list (map unit_of ((threads s)[t := threads s' ! t]))"
    by (simp add: in_progress_def)
  with sum_list_map_update [OF t, of unit_of "threads s' ! t"] show ?thesis
    by (simp add: in_progress_def)
qed

text \<open>What a step does to the unit of the worker and to the units in the trace.\<close>

lemma step_unit_cases:
  assumes "step X t s = Some s'"
  shows "(\<exists>i g. unit_of (threads s ! t) = {#} \<and> unit_of (threads s' ! t) = {#(i, g)#} \<and>
            claimed_units (trace s') = claimed_units (trace s) @ [(i, g)] \<and>
            emitted (trace s') = emitted (trace s)) \<or>
         (\<exists>i g output. unit_of (threads s ! t) = {#(i, g)#} \<and> unit_of (threads s' ! t) = {#} \<and>
            claimed_units (trace s') = claimed_units (trace s) \<and>
            emitted (trace s') = emitted (trace s) @ [((i, g), output)]) \<or>
         (claimed_units (trace s') = claimed_units (trace s) \<and>
          emitted (trace s') = emitted (trace s) \<and>
          (unit_of (threads s' ! t) = unit_of (threads s ! t) \<or>
           unit_of (threads s' ! t) = {#} \<and>
             (terminate s' \<or> threads s' ! t = Aborted \<or> outputFilePath s = '''')))"
proof -
  from step_SomeD [OF assms] have t: "t < length (threads s)"
    and ts: "thread_step X t (threads s ! t) s = Some s'" by simp_all
  from ts t show ?thesis
    by (cases "threads s ! t")
      (auto simp: Let_def split: if_splits option.splits sum.splits prod.splits)
qed

lemma step_units_inv:
  assumes "step X t s = Some s'" and "units_inv s"
  shows "units_inv s'"
proof -
  note ip = step_in_progress [OF assms(1)]
  from step_SomeD [OF assms(1)] have t: "t < length (threads s)" by simp
  from step_threads(1) [OF assms(1)] have len: "length (threads s') = length (threads s)"
    by (metis length_list_update)
  from assms(2) have A: "mset (map fst (emitted (trace s))) + in_progress s \<subseteq># mset (claimed_units (trace s))"
    by (simp add: units_inv_def)
  have path: "outputFilePath s' = outputFilePath s"
    using config_fields(2) [OF step_config [OF assms(1)]] .
  have B: "mset (claimed_units (trace s)) = mset (map fst (emitted (trace s))) + in_progress s"
    if "undisturbed s'" "outputFilePath s' \<noteq> ''''"
    using assms(2) step_undisturbed [OF assms(1) that(1)] that(2) path
    by (simp add: units_inv_def)
  from step_unit_cases [OF assms(1)]
  consider (claim) i g where "unit_of (threads s ! t) = {#}" "unit_of (threads s' ! t) = {#(i, g)#}"
      "claimed_units (trace s') = claimed_units (trace s) @ [(i, g)]"
      "emitted (trace s') = emitted (trace s)"
    | (emit) i g out where "unit_of (threads s ! t) = {#(i, g)#}" "unit_of (threads s' ! t) = {#}"
      "claimed_units (trace s') = claimed_units (trace s)"
      "emitted (trace s') = emitted (trace s) @ [((i, g), out)]"
    | (same) "claimed_units (trace s') = claimed_units (trace s)"
      "emitted (trace s') = emitted (trace s)" "unit_of (threads s' ! t) = unit_of (threads s ! t)"
    | (drop) "claimed_units (trace s') = claimed_units (trace s)"
      "emitted (trace s') = emitted (trace s)" "unit_of (threads s' ! t) = {#}"
      "terminate s' \<or> threads s' ! t = Aborted \<or> outputFilePath s = ''''"
    by blast
  then show ?thesis
  proof cases
    case claim
    from ip claim(1,2) have i: "in_progress s' = in_progress s + {#(i, g)#}" by simp
    from A B show ?thesis
      by (auto simp: units_inv_def i claim(3,4))
  next
    case emit
    from ip emit(1,2) have i: "in_progress s' + {#(i, g)#} = in_progress s" by simp
    from A B show ?thesis
      by (auto simp: units_inv_def i [symmetric] emit(3,4))
  next
    case same
    from ip same(3) have i: "in_progress s' = in_progress s" by simp
    from A B show ?thesis
      by (auto simp: units_inv_def i same(1,2))
  next
    case drop
    from ip drop(3) have i: "in_progress s' + unit_of (threads s ! t) = in_progress s" by simp
    then have sub: "in_progress s' \<subseteq># in_progress s"
      by (metis mset_subset_eq_add_left)
    have nd: "\<not> (undisturbed s' \<and> outputFilePath s' \<noteq> '''')"
      using drop(4) t len path by (auto simp: undisturbed_def none_aborted_def)
    from A sub have "mset (map fst (emitted (trace s))) + in_progress s' \<subseteq># mset (claimed_units (trace s))"
      by (meson subset_mset.add_left_mono subset_mset.order_trans)
    with nd show ?thesis
      by (auto simp: units_inv_def drop(1,2))
  qed
qed

subsection \<open>The outputs carried and written\<close>

lemma step_loadAndProcess:
  assumes "step X t s = Some s'" and "claim_inv s"
  shows "loadAndProcess X s' i g = loadAndProcess X s i g"
proof -
  from step_SomeD [OF assms(1)] have t: "t < length (threads s)"
    and ts: "thread_step X t (threads s ! t) s = Some s'" by simp_all
  from assms(2) t have ok: "pc_ok (length (unprocessedInputs s)) (length (graphSpecPaths s)) (threads s ! t)"
    by (simp add: claim_inv_def)
  have upd: "readersOf X r (((unprocessedInputs s)[j := (unprocessedInputs s ! j)\<lparr>unprocessedGraphs := k\<rparr>]) ! i)
      = readersOf X r (unprocessedInputs s ! i)"
    "inputPaths (((unprocessedInputs s)[j := (unprocessedInputs s ! j)\<lparr>unprocessedGraphs := k\<rparr>]) ! i)
      = inputPaths (unprocessedInputs s ! i)"
    if "j < length (unprocessedInputs s)" for j k r
    using that by (cases "i = j"; simp add: readersOf_def)+
  from ts ok show ?thesis
    by (cases "threads s ! t")
      (auto simp: loadAndProcess_def Let_def upd
        split: if_splits option.splits sum.splits prod.splits cong: option.case_cong)
qed

lemma step_output_inv:
  assumes "step X t s = Some s'" and "output_inv X s" and "claim_inv s"
  shows "output_inv X s'"
proof -
  from step_SomeD [OF assms(1)] have t: "t < length (threads s)"
    and ts: "thread_step X t (threads s ! t) s = Some s'" by simp_all
  note lap = step_loadAndProcess [OF assms(1,3)]
  note th = step_threads [OF assms(1)]
  from th(1) have len: "length (threads s') = length (threads s)"
    by (metis length_list_update)
  from assms(2) t have me: "output_ok X s (threads s ! t)"
    by (simp add: output_inv_def)
  have tm: "\<not> terminate s" if "\<not> terminate s'"
    using step_terminate_mono [OF assms(1)] that by blast
  have mine: "output_ok X s' (threads s' ! t)"
    using ts me t
    by (cases "threads s ! t")
      (auto simp: Let_def lap [symmetric] split: if_splits option.splits sum.splits prod.splits)
  have other: "output_ok X s' (threads s' ! u)" if u: "u < length (threads s)" "u \<noteq> t" for u
  proof -
    from th(1) u(2) have eq: "threads s' ! u = threads s ! u"
      by (metis nth_list_update_neq)
    from assms(2) u(1) have "output_ok X s (threads s ! u)"
      by (simp add: output_inv_def)
    then show ?thesis
      unfolding eq using tm by (cases "threads s ! u") (auto simp: lap)
  qed
  have O1: "\<forall>u < length (threads s'). output_ok X s' (threads s' ! u)"
    using mine other len by (metis)
  have O2: "\<forall>((i, g), out) \<in> set (emitted (trace s')). loadAndProcess X s' i g = Inr out"
    if nt: "\<not> terminate s'"
  proof -
    from assms(2) tm [OF nt] have old:
      "\<forall>((i, g), out) \<in> set (emitted (trace s)). loadAndProcess X s i g = Inr out"
      by (simp add: output_inv_def)
    from ts me t old tm [OF nt] show ?thesis
      by (cases "threads s ! t")
        (auto simp: Let_def lap [symmetric] split: if_splits option.splits sum.splits prod.splits)
  qed
  from O1 O2 show ?thesis
    unfolding output_inv_def by blast
qed

subsection \<open>The aggregated stream\<close>

lemma join_items_snoc:
  "join_items (xs @ [y]) = (if xs = [] then y else join_items xs @ '','' @ y)"
  by (cases xs) simp_all

lemma os_write_good:
  "\<not> failed (os_write X os txt) \<Longrightarrow> \<not> failed os \<and> os_write X os txt = os\<lparr>buffer := buffer os @ txt\<rparr>"
  by (auto simp: os_write_def split: if_splits)

lemma dumpOutput_good:
  assumes "dumpOutput X output os file = (os', None)"
  shows "\<not> failed os" and "buffer os' = buffer os @ output"
proof -
  from assms have nf: "\<not> failed (os_write X os output)" and os': "os' = os_write X os output"
    by (auto simp: dumpOutput_def Let_def split: if_splits)
  from os_write_good [OF nf] os' show "\<not> failed os" "buffer os' = buffer os @ output"
    by simp_all
qed

lemma step_buffer_inv:
  assumes "step X t s = Some s'" and "buffer_inv before s"
  shows "buffer_inv before s'"
  unfolding buffer_inv_def
proof (intro impI)
  assume na: "none_aborted s'"
  from step_none_aborted [OF assms(1) na] assms(2)
  have old: "buffer (outputFileStream s) = before @ join_items (map snd (emitted (trace s)))"
    "firstPrinted s \<longleftrightarrow> emitted (trace s) \<noteq> []"
    by (simp_all add: buffer_inv_def)
  from step_SomeD [OF assms(1)] have t: "t < length (threads s)"
    and ts: "thread_step X t (threads s ! t) s = Some s'" by simp_all
  from step_threads(1) [OF assms(1)] have len: "length (threads s') = length (threads s)"
    by (metis length_list_update)
  from na t len have nab: "threads s' ! t \<noteq> Aborted"
    by (simp add: none_aborted_def)
  show "buffer (outputFileStream s') = before @ join_items (map snd (emitted (trace s'))) \<and>
        (firstPrinted s' \<longleftrightarrow> emitted (trace s') \<noteq> [])"
  proof (cases "threads s ! t")
    case (WriteOutput i g out)
    show ?thesis
    proof (cases "outputFilePath s = ''''")
      case True
      with ts WriteOutput old show ?thesis by auto
    next
      case False
      define os where "os = (if firstPrinted s then os_write X (outputFileStream s) '','' else outputFileStream s)"
      obtain os' e where d: "dumpOutput X out os (outputFilePath s) = (os', e)"
        by (cases "dumpOutput X out os (outputFilePath s)")
      from ts WriteOutput False d nab t have e: "e = None"
        and s': "s' = goto t (WhileHead i) (record_action t (WroteAggregated i g out)
                    (s\<lparr>outputFileStream := os', firstPrinted := True\<rparr>))"
        by (auto simp: Let_def os_def split: if_splits)
      from dumpOutput_good [OF d [unfolded e]] have good: "\<not> failed os" "buffer os' = buffer os @ out"
        by simp_all
      have "buffer os = buffer (outputFileStream s) @ (if firstPrinted s then '','' else '''')"
        using good(1) os_write_good [of X "outputFileStream s" "'',''"]
        by (auto simp: os_def)
      with good(2) old show ?thesis
        by (simp add: s' join_items_snoc)
    qed
  qed (use ts old nab t in \<open>auto simp: Let_def split: if_splits option.splits sum.splits prod.splits\<close>)
qed

subsection \<open>Runs\<close>

lemma step_invariant:
  assumes "step X t s = Some s'" and "invariant X before s"
  shows "invariant X before s'"
  using assms
  unfolding invariant_def
  by (auto intro: step_lock_inv step_trace_inv step_claim_inv step_progress_inv step_units_inv
      step_output_inv step_buffer_inv)

lemma exec_invariant:
  "invariant X before s \<Longrightarrow> invariant X before (exec X sched s)"
proof (induction sched arbitrary: s)
  case Nil
  then show ?case by simp
next
  case (Cons t sched)
  show ?case
  proof (cases "step X t s")
    case None
    with Cons show ?thesis by simp
  next
    case (Some s')
    from step_invariant [OF Some Cons.prems] Cons.IH Some show ?thesis by simp
  qed
qed


lemma in_progress_start: "in_progress (start w n fos) = {#}"
  by (simp add: in_progress_def) (induction n, simp_all)

lemma start_invariant:
  assumes "fresh w"
  shows "invariant X (buffer fos) (start w n fos)"
proof -
  from assms have m: "mutex w = None" and fp: "\<not> firstPrinted w" and tm: "\<not> terminate w"
    and cur: "\<And>i. i < length (unprocessedInputs w) \<Longrightarrow> unprocessedGraphs (unprocessedInputs w ! i) = 0"
    by (auto simp: fresh_def list_all_length)
  have "claim_inv (start w n fos)"
    by (simp add: claim_inv_def cursor_def cur)
  moreover have "progress_inv (start w n fos)"
    by (simp add: progress_inv_def)
  moreover have "units_inv (start w n fos)"
    by (simp add: units_inv_def in_progress_start)
  moreover have "output_inv X (start w n fos)"
    by (simp add: output_inv_def)
  moreover have "buffer_inv (buffer fos) (start w n fos)"
    using fp by (simp add: buffer_inv_def)
  ultimately show ?thesis
    using start_lock_inv [OF m] start_trace_inv
    by (simp add: invariant_def)
qed

subsection \<open>The claimed units are distinct\<close>









subsection \<open>Every run can be continued until all workers have returned\<close>






subsection \<open>With reliable collaborators every worker returns normally\<close>














subsection \<open>The termination flag\<close>

lemma step_others:
  assumes "step X t s = Some s'" and "u \<noteq> t"
  shows "threads s' ! u = threads s ! u"
  using step_threads(1) [OF assms(1)] assms(2) by (metis nth_list_update_neq)

lemma step_enters_expensive:
  assumes "step X t s = Some s'" and "threads s' ! t = LoadAndProcess i g"
  shows "threads s ! t = CheckTerminate i g \<and> \<not> terminate s"
proof -
  from step_SomeD [OF assms(1)] have t: "t < length (threads s)"
    and ts: "thread_step X t (threads s ! t) s = Some s'" by simp_all
  from ts t assms(2) show ?thesis
    by (cases "threads s ! t")
      (auto simp: Let_def split: if_splits option.splits sum.splits prod.splits)
qed

lemma step_left_group:
  assumes "step X t s = Some s'" and "left_group i (threads s ! t)"
  shows "left_group i (threads s' ! t) \<and> cursor s' i = cursor s i"
proof -
  from step_SomeD [OF assms(1)] have t: "t < length (threads s)"
    and ts: "thread_step X t (threads s ! t) s = Some s'" by simp_all
  from ts t assms(2) show ?thesis
    by (cases "threads s ! t")
      (auto simp: Let_def cursor_def split: if_splits option.splits sum.splits prod.splits)
qed

lemma in_flight_not_blocked:
  assumes "t < length (threads s)"
    and "threads s ! t = LoadAndProcess i g \<or> threads s ! t = MakeOutput i g out"
  shows "step X t s \<noteq> None"
  using assms by (auto simp: step_def Let_def split: sum.splits prod.splits)

lemma in_flight_completes:
  assumes t: "t < length (threads s)"
    and at: "threads s ! t = LoadAndProcess i g"
    and ok: "loadAndProcess X s i g = Inr out"
    and wf: "writeUnitFile X (outputFolderPath s) (gzipOutput s) (files s) out (graphSpecPaths s ! g) = (fs, None)"
    and free: "mutex s = None"
    and path: "outputFilePath s \<noteq> ''''"
    and sink: "\<not> failed (outputFileStream s)" "sinkAccepts X (sinkName (outputFileStream s)) '',''"
      "sinkAccepts X (sinkName (outputFileStream s)) out"
  shows "threads (exec X [t, t, t, t, t] s) ! t = WhileHead i \<and>
         buffer (outputFileStream (exec X [t, t, t, t, t] s)) =
           buffer (outputFileStream s) @ (if firstPrinted s then '','' else '''') @ out \<and>
         emitted (trace (exec X [t, t, t, t, t] s)) = emitted (trace s) @ [((i, g), out)]"
proof -
  define s1 where "s1 = goto t (MakeOutput i g out)
      (record_action t (ProcessedGraph i g) (record_action t (LoadedParameters i g) s))"
  define s2 where "s2 = goto t (Relock i g False out)
      ((if outputFolderPath s1 \<noteq> '''' then record_action t (WroteUnitFile i g) s1 else s1)\<lparr>files := fs\<rparr>)"
  define s3 where "s3 = goto t (Cleanup i g False out) (s2\<lparr>mutex := Some t\<rparr>)"
  define s4 where "s4 = goto t (WriteOutput i g out) (s3\<lparr>terminate := (terminate s3 \<or> False)\<rparr>)"
  have 1: "step X t s = Some s1"
    using t at ok by (simp add: step_def s1_def)
  have 2: "step X t s1 = Some s2"
    using t wf by (simp add: step_def s1_def s2_def Let_def)
  have 3: "step X t s2 = Some s3"
    using t free by (simp add: step_def s1_def s2_def s3_def)
  have 4: "step X t s3 = Some s4"
    using t by (simp add: step_def s1_def s2_def s3_def s4_def)
  define os where "os = (if firstPrinted s then os_write X (outputFileStream s) '','' else outputFileStream s)"
  have os: "\<not> failed os" "sinkName os = sinkName (outputFileStream s)"
    "buffer os = buffer (outputFileStream s) @ (if firstPrinted s then '','' else '''')"
    using sink by (auto simp: os_def os_write_def)
  have d: "dumpOutput X out os (outputFilePath s) = (os\<lparr>buffer := buffer os @ out\<rparr>, None)"
    using os sink(3) by (simp add: dumpOutput_accepts)
  define s5 where "s5 = goto t (WhileHead i) (record_action t (WroteAggregated i g out)
      (s4\<lparr>outputFileStream := os\<lparr>buffer := buffer os @ out\<rparr>, firstPrinted := True\<rparr>))"
  have s4f: "outputFilePath s4 = outputFilePath s" "firstPrinted s4 = firstPrinted s"
    "outputFileStream s4 = outputFileStream s" "threads s4 ! t = WriteOutput i g out"
    "length (threads s4) = length (threads s)"
    using t by (auto simp: s1_def s2_def s3_def s4_def)
  have osd: "(if firstPrinted s4 then os_write X (outputFileStream s4) '','' else outputFileStream s4) = os"
    by (simp add: os_def s4f)
  have 5: "step X t s4 = Some s5"
    using t path by (simp add: step_def s5_def Let_def s4f(1,4,5) osd d split del: if_split)
  have e: "exec X [t, t, t, t, t] s = s5"
    by (simp add: 1 2 3 4 5)
  have tr: "emitted (trace s5) = emitted (trace s) @ [((i, g), out)]"
    by (auto simp: s1_def s2_def s3_def s4_def s5_def)
  show ?thesis
    unfolding e using t os tr s4f(5) by (simp add: s5_def)
qed

text \<open>
  Claim C4. The cleanup function of a failed unit sets the termination flag. Once the
  flag is set it stays set, and no step takes a worker into the expensive stage: a
  worker that has claimed a unit and finds the flag set at the test leaves the loop of
  its group without processing the unit (no file is written, nothing goes to the
  aggregated stream), and a worker that has left the loop of a group does not come
  back to it nor move the cursor of that group. A step of one worker does not change
  the place of another, a worker in the expensive stage is never blocked, and with its
  unit processed without failure and the mutex free it writes its output to the
  aggregated stream, whether the flag is set or not.
\<close>

theorem soft_terminate:
  assumes "t < length (threads s)"
  shows "(\<forall>i g out. threads s ! t = Cleanup i g True out \<longrightarrow>
            (\<exists>s'. step X t s = Some s' \<and> terminate s')) \<and>
         (\<forall>s'. terminate s \<and> step X t s = Some s' \<longrightarrow>
            terminate s' \<and> (\<forall>i g. threads s' ! t \<noteq> LoadAndProcess i g) \<and>
            (\<forall>u. u \<noteq> t \<longrightarrow> threads s' ! u = threads s ! u)) \<and>
         (\<forall>i g. terminate s \<and> threads s ! t = CheckTerminate i g \<longrightarrow>
            (\<exists>s'. step X t s = Some s' \<and> threads s' ! t = ForEnd i \<and>
                  files s' = files s \<and> outputFileStream s' = outputFileStream s \<and>
                  emitted (trace s') = emitted (trace s))) \<and>
         (\<forall>i s'. left_group i (threads s ! t) \<and> step X t s = Some s' \<longrightarrow>
            left_group i (threads s' ! t) \<and> cursor s' i = cursor s i) \<and>
         (\<forall>i g out. threads s ! t = LoadAndProcess i g \<or> threads s ! t = MakeOutput i g out \<longrightarrow>
            step X t s \<noteq> None) \<and>
         (\<forall>i g out fs.
            threads s ! t = LoadAndProcess i g \<and> loadAndProcess X s i g = Inr out \<and>
            writeUnitFile X (outputFolderPath s) (gzipOutput s) (files s) out (graphSpecPaths s ! g)
              = (fs, None) \<and>
            mutex s = None \<and> outputFilePath s \<noteq> '''' \<and> \<not> failed (outputFileStream s) \<and>
            sinkAccepts X (sinkName (outputFileStream s)) '','' \<and>
            sinkAccepts X (sinkName (outputFileStream s)) out \<longrightarrow>
            threads (exec X [t, t, t, t, t] s) ! t = WhileHead i \<and>
            buffer (outputFileStream (exec X [t, t, t, t, t] s)) =
              buffer (outputFileStream s) @ (if firstPrinted s then '','' else '''') @ out \<and>
            emitted (trace (exec X [t, t, t, t, t] s)) = emitted (trace s) @ [((i, g), out)])"
  (is "?A \<and> ?B \<and> ?C \<and> ?D \<and> ?E \<and> ?F")
proof -
  have A: ?A
    using assms by (simp add: step_def)
  have B: ?B
  proof (intro allI impI)
    fix s' assume h: "terminate s \<and> step X t s = Some s'"
    then have st: "step X t s = Some s'" and tm: "terminate s" by simp_all
    from step_enters_expensive [OF st] tm have "\<forall>i g. threads s' ! t \<noteq> LoadAndProcess i g"
      by blast
    moreover from step_others [OF st] have "\<forall>u. u \<noteq> t \<longrightarrow> threads s' ! u = threads s ! u"
      by blast
    ultimately show "terminate s' \<and> (\<forall>i g. threads s' ! t \<noteq> LoadAndProcess i g) \<and>
            (\<forall>u. u \<noteq> t \<longrightarrow> threads s' ! u = threads s ! u)"
      using step_terminate_mono [OF st tm] by blast
  qed
  have C: ?C
    using assms by (simp add: step_def)
  have D: ?D
    using step_left_group by blast
  have E: ?E
    using in_flight_not_blocked [OF assms] by blast
  have F: ?F
    by (intro allI impI, elim conjE, rule in_flight_completes [OF assms]; assumption)
  from A B C D E F show ?thesis by (intro conjI)
qed

lemma flag_set_eval:
  "threads flag_set = [Aborted, LoadAndProcess 0 1, CheckTerminate 0 2]"
  "terminate flag_set = True"
  "mutex flag_set = Some 2"
  "buffer (outputFileStream (exec example_externals [2, 2, 1, 1, 1, 1, 1] flag_set)) = ''[{g2.json:a.bam}''"
  by code_simp+

theorem soft_terminate_witness:
  "terminate flag_set \<and>
   (\<exists>s'. step example_externals 2 flag_set = Some s' \<and> threads s' ! 2 = ForEnd 0 \<and>
     emitted (trace s') = emitted (trace flag_set)) \<and>
   step example_externals 1 flag_set \<noteq> None \<and>
   buffer (outputFileStream (exec example_externals [2, 2, 1, 1, 1, 1, 1] flag_set)) = ''[{g2.json:a.bam}''"
proof -
  have l: "2 < length (threads flag_set)" "1 < length (threads flag_set)"
    and p: "threads flag_set ! 2 = CheckTerminate 0 2" "threads flag_set ! 1 = LoadAndProcess 0 1"
    and tm: "terminate flag_set"
    by (simp_all add: flag_set_eval)
  note two = soft_terminate [OF l(1), of example_externals]
  note one = soft_terminate [OF l(2), of example_externals]
  from two have "\<forall>i g. terminate flag_set \<and> threads flag_set ! 2 = CheckTerminate i g \<longrightarrow>
            (\<exists>s'. step example_externals 2 flag_set = Some s' \<and> threads s' ! 2 = ForEnd i \<and>
                  files s' = files flag_set \<and> outputFileStream s' = outputFileStream flag_set \<and>
                  emitted (trace s') = emitted (trace flag_set))"
    by (elim conjE)
  with tm p(1) have x: "\<exists>s'. step example_externals 2 flag_set = Some s' \<and> threads s' ! 2 = ForEnd 0 \<and>
     emitted (trace s') = emitted (trace flag_set)"
    by blast
  from one have "\<forall>i g out. threads flag_set ! 1 = LoadAndProcess i g \<or>
      threads flag_set ! 1 = MakeOutput i g out \<longrightarrow> step example_externals 1 flag_set \<noteq> None"
    by (elim conjE)
  with p(2) have y: "step example_externals 1 flag_set \<noteq> None"
    by blast
  from tm x y flag_set_eval(4) show ?thesis by (intro conjI)
qed

subsection \<open>The framing of the aggregated output\<close>

lemma step_failed:
  assumes "step X t s = Some s'" and "failed (outputFileStream s)"
  shows "failed (outputFileStream s')"
proof -
  from step_SomeD [OF assms(1)] have t: "t < length (threads s)"
    and ts: "thread_step X t (threads s ! t) s = Some s'" by simp_all
  from ts t assms(2) show ?thesis
    by (cases "threads s ! t")
      (auto simp: Let_def dumpOutput_def os_write_def
         split: if_splits option.splits sum.splits prod.splits)
qed

lemma exec_failed: "failed (outputFileStream s) \<Longrightarrow> failed (outputFileStream (exec X sched s))"
proof (induction sched arbitrary: s)
  case Nil
  then show ?case by simp
next
  case (Cons t sched)
  show ?case
  proof (cases "step X t s")
    case None
    with Cons show ?thesis by simp
  next
    case (Some s')
    from step_failed [OF Some Cons.prems] Cons.IH Some show ?thesis by simp
  qed
qed

text \<open>
  What \<open>run\<close> leaves in the aggregated stream, when no write has failed: the items
  written by the workers with the separators between them, inside the framing tokens
  when there are two or more graph specifications.
\<close>

lemma run_aggregated_output:
  assumes "fresh w" and "run X n sched w = Some (Inr s)" and "\<not> failed (outputFileStream s)"
  shows "buffer (outputFileStream s) =
           (if framed w then ''['' else '''') @ join_items (map snd (emitted (trace s))) @
           (if framed w then '']'' @ [CHR 0x0A] else '''')"
proof -
  define fos where "fos = \<lparr>sinkName = outputFilePath w, buffer = '''', failed = False\<rparr>"
  define fos' where "fos' = (if framed w then os_write X fos ''['' else fos)"
  define s0 where "s0 = exec X sched (start w n fos')"
  from assms(2) have fin: "list_all (\<lambda>p. p = Finished) (threads s0)"
    and s: "s = (if framed w
                 then s0\<lparr>outputFileStream := os_write X (outputFileStream s0) ('']'' @ [CHR 0x0A])\<rparr>
                 else s0)"
    by (auto simp: run_def Let_def fos_def fos'_def s0_def split: if_splits)
  have inv: "invariant X (buffer fos') s0"
    unfolding s0_def using start_invariant [OF assms(1)] by (rule exec_invariant)
  from fin have "none_aborted s0"
    by (auto simp: none_aborted_def list_all_length)
  with inv have b0: "buffer (outputFileStream s0) = buffer fos' @ join_items (map snd (emitted (trace s0)))"
    by (simp add: invariant_def buffer_inv_def)
  have tr: "trace s = trace s0" by (simp add: s)
  show ?thesis
  proof (cases "framed w")
    case False
    then show ?thesis
      by (simp add: s b0 fos'_def fos_def)
  next
    case True
    with assms(3) s have nf: "\<not> failed (os_write X (outputFileStream s0) ('']'' @ [CHR 0x0A]))"
      by simp
    from os_write_good [OF nf] have nf0: "\<not> failed (outputFileStream s0)"
      and b: "buffer (os_write X (outputFileStream s0) ('']'' @ [CHR 0x0A])) =
          buffer (outputFileStream s0) @ '']'' @ [CHR 0x0A]" by simp_all
    from nf0 exec_failed [of "start w n fos'" X sched] have "\<not> failed fos'"
      unfolding s0_def by auto
    with True have "\<not> failed (os_write X fos ''['')" by (simp add: fos'_def)
    from os_write_good [OF this] True have "buffer fos' = ''[''"
      by (simp add: fos'_def fos_def)
    with True b b0 show ?thesis
      by (simp add: s)
  qed
qed

text \<open>
  Claim C3. The claim asks for an opening and a closing framing token whenever more
  than one unit exists. \<open>run\<close> tests the number of graph specifications instead of the
  number of units: with two read sources that are not joint and one graph
  specification there are two units, and one worker writes the two items with the
  separator between them and no framing token around them.
\<close>

theorem run_two_inputs_one_graph:
  "Workflow_new False [''a.bam'', ''b.bam''] [''a.bai'', ''b.bai''] [''g.json''] ''out.json'' ''''
     False '''' ''ref.fa'' '''' = Inr two_inputs_one_graph \<and>
   map_option (map_sum id (\<lambda>s. buffer (outputFileStream s)))
     (run example_externals 1 (replicate 30 0) two_inputs_one_graph) =
     Some (Inr ''{g.json:a.bam},{g.json:b.bam}'')"
  by code_simp

subsection \<open>Failure of a unit\<close>







end
